theory Spec2Isabelle
  imports Complex_Main
begin

section \<open>Common conventions\<close>

text \<open>
  JavaScript numbers that carry coordinates, overlaps and scores are modelled as
  \<^typ>\<open>real\<close> (ideal arithmetic, no rounding, no NaN or Infinity); millisecond
  timestamps read from \<^verbatim>\<open>Date.now()\<close> as \<^typ>\<open>int\<close>; identifiers, counters and
  array indices as \<^typ>\<open>nat\<close>. A two-element array \<^verbatim>\<open>[x, y]\<close> and an object
  \<^verbatim>\<open>{x, y}\<close> are both a pair.
\<close>

type_synonym point = "real \<times> real"

subsection \<open>Decimal rendering of identifiers in template strings\<close>

definition digit_char :: "nat \<Rightarrow> char" where
  "digit_char d = ''0123456789'' ! d"

fun string_of_nat :: "nat \<Rightarrow> string" where
  "string_of_nat n =
     (if n < 10 then [digit_char n]
      else string_of_nat (n div 10) @ [digit_char (n mod 10)])"

declare string_of_nat.simps [simp del]

text \<open>\<^verbatim>\<open>String.prototype.includes\<close>: the argument occurs as a contiguous substring.\<close>

fun starts_with :: "string \<Rightarrow> string \<Rightarrow> bool" where
  "starts_with s [] = True"
| "starts_with [] (c # cs) = False"
| "starts_with (d # ds) (c # cs) = (d = c \<and> starts_with ds cs)"

fun str_includes :: "string \<Rightarrow> string \<Rightarrow> bool" where
  "str_includes [] sub = (sub = [])"
| "str_includes (d # ds) sub = (starts_with (d # ds) sub \<or> str_includes ds sub)"

section \<open>Line manager\<close>

datatype btype = Line | Area

datatype orientation = Vertical | Horizontal

datatype direction = In | Out

datatype error = TypeError | NotInitialized | DetectorError

text \<open>
  A stored boundary object. The fields present depend on its kind: a line has
  \<^verbatim>\<open>start\<close>, \<^verbatim>\<open>end\<close> and \<^verbatim>\<open>orientation\<close>; an area has
  \<^verbatim>\<open>peopleInside\<close> and either \<^verbatim>\<open>points\<close> (polygon) or \<^verbatim>\<open>start\<close>
  and \<^verbatim>\<open>end\<close> (legacy rectangle). Colours are chosen at random and only used for
  drawing; they are left out.
\<close>

datatype shape =
    LineShape point point orientation
  | RectArea point point "nat set"
  | PolyArea "point list" "nat set"

record boundary =
  b_id :: nat
  b_name :: string
  b_shape :: shape

fun shape_type :: "shape \<Rightarrow> btype" where
  "shape_type (LineShape st en ori) = Line"
| "shape_type (RectArea st en inside) = Area"
| "shape_type (PolyArea pts inside) = Area"

definition b_type :: "boundary \<Rightarrow> btype" where
  "b_type b = shape_type (b_shape b)"

fun peopleInside :: "boundary \<Rightarrow> nat set option" where
  "peopleInside b =
     (case b_shape b of
        LineShape st en ori \<Rightarrow> None
      | RectArea st en inside \<Rightarrow> Some inside
      | PolyArea pts inside \<Rightarrow> Some inside)"

record counts =
  c_in :: nat
  c_out :: nat

definition zero_counts :: counts where
  "zero_counts = \<lparr>c_in = 0, c_out = 0\<rparr>"

record crossing =
  cr_timestamp :: int
  cr_direction :: direction

record crossing_event =
  ev_lineId :: nat
  ev_lineName :: string
  ev_personId :: nat
  ev_direction :: direction
  ev_position :: point
  ev_timestamp :: int

text \<open>
  The manager's state. \<^verbatim>\<open>emitted\<close> is the sequence of crossing events the manager
  has produced so far (each one is logged and handed to \<^verbatim>\<open>onLineCrossed\<close> when a
  listener is registered). Canvas and video dimensions are read from the DOM.
\<close>

record line_manager =
  canvasWidth :: real
  canvasHeight :: real
  videoWidth :: real
  videoHeight :: real
  lines :: "boundary list"
  nextLineId :: nat
  lineCrossings :: "nat \<rightharpoonup> counts"
  crossedTracks :: "string \<rightharpoonup> crossing"
  emitted :: "crossing_event list"
  isDrawingEnabled :: bool
  isDrawing :: bool
  drawingLine :: "(point \<times> point) option"
  drawingMode :: btype
  drawingPoints :: "point list"

definition new_LineManager :: "real \<Rightarrow> real \<Rightarrow> real \<Rightarrow> real \<Rightarrow> line_manager" where
  "new_LineManager cw ch vw vh =
     \<lparr>canvasWidth = cw, canvasHeight = ch, videoWidth = vw, videoHeight = vh,
      lines = [], nextLineId = 1, lineCrossings = Map.empty, crossedTracks = Map.empty,
      emitted = [], isDrawingEnabled = False, isDrawing = False, drawingLine = None,
      drawingMode = Line, drawingPoints = []\<rparr>"

subsection \<open>Creating, removing and resetting boundaries\<close>

datatype req_geometry = Endpoints point point | Points "point list"

record request =
  rq_type :: "btype option"
  rq_geometry :: req_geometry
  rq_name :: "string option"

definition defaultLineNames :: "string list" where
  "defaultLineNames =
     [''North Entrance'', ''South Exit'', ''Main Door'', ''Side Entrance'', ''Emergency Exit'']"

fun orientation_title :: "orientation \<Rightarrow> string" where
  "orientation_title Vertical = ''Vertical''"
| "orientation_title Horizontal = ''Horizontal''"

definition generateLineName :: "line_manager \<Rightarrow> orientation \<Rightarrow> string" where
  "generateLineName s ori =
     (let count = length (lines s) in
      if count < length defaultLineNames then defaultLineNames ! count
      else orientation_title ori @ '' Line '' @ string_of_nat (count + 1))"

text \<open>
  \<^verbatim>\<open>addLine\<close> draws the id first, then reads the geometry. A request of kind line
  without \<^verbatim>\<open>start\<close>/\<^verbatim>\<open>end\<close> makes the orientation computation throw, after the
  id counter has been advanced. No other request is refused.
\<close>

definition addLine :: "request \<Rightarrow> line_manager \<Rightarrow> (error + boundary) \<times> line_manager" where
  "addLine line s =
     (let lineId = nextLineId s;
          s1 = s\<lparr>nextLineId := nextLineId s + 1\<rparr>;
          type = (case rq_type line of None \<Rightarrow> Line | Some t \<Rightarrow> t)
      in case (type, rq_geometry line) of
           (Line, Points pts) \<Rightarrow> (Inl TypeError, s1)
         | (Line, Endpoints st en) \<Rightarrow>
             (let isVertical = \<bar>fst en - fst st\<bar> < \<bar>snd en - snd st\<bar>;
                  ori = (if isVertical then Vertical else Horizontal);
                  name = (case rq_name line of
                            None \<Rightarrow> generateLineName s1 ori
                          | Some n \<Rightarrow> if n = [] then generateLineName s1 ori else n);
                  newLine = \<lparr>b_id = lineId, b_name = name, b_shape = LineShape st en ori\<rparr>
              in (Inr newLine,
                  s1\<lparr>lineCrossings := (lineCrossings s1)(lineId \<mapsto> zero_counts),
                     lines := lines s1 @ [newLine]\<rparr>))
         | (Area, geom) \<Rightarrow>
             (let name = (case rq_name line of
                            None \<Rightarrow> ''Area '' @ string_of_nat lineId
                          | Some n \<Rightarrow> if n = [] then ''Area '' @ string_of_nat lineId else n);
                  shp = (case geom of
                           Points pts \<Rightarrow> PolyArea pts {}
                         | Endpoints st en \<Rightarrow> RectArea st en {});
                  newLine = \<lparr>b_id = lineId, b_name = name, b_shape = shp\<rparr>
              in (Inr newLine,
                  s1\<lparr>lineCrossings := (lineCrossings s1)(lineId \<mapsto> zero_counts),
                     lines := lines s1 @ [newLine]\<rparr>)))"

text \<open>\<^verbatim>\<open>findIndex\<close> followed by \<^verbatim>\<open>splice(index, 1)\<close>: drop the first match.\<close>

fun remove_first :: "nat \<Rightarrow> boundary list \<Rightarrow> boundary list" where
  "remove_first lineId [] = []"
| "remove_first lineId (l # ls) = (if b_id l = lineId then ls else l # remove_first lineId ls)"

definition removeLine :: "nat \<Rightarrow> line_manager \<Rightarrow> bool \<times> line_manager" where
  "removeLine lineId s =
     (if \<exists>l \<in> set (lines s). b_id l = lineId then
        (True,
         s\<lparr>lines := remove_first lineId (lines s),
           lineCrossings := (lineCrossings s)(lineId := None),
           crossedTracks := (\<lambda>key. if str_includes key (''-'' @ string_of_nat lineId) then None
                                     else crossedTracks s key)\<rparr>)
      else (False, s))"

definition clearLines :: "line_manager \<Rightarrow> line_manager" where
  "clearLines s = s\<lparr>lines := [], lineCrossings := Map.empty, crossedTracks := Map.empty\<rparr>"

definition resetCounts :: "line_manager \<Rightarrow> line_manager" where
  "resetCounts s =
     s\<lparr>lineCrossings := (\<lambda>lineId. case lineCrossings s lineId of
                                     None \<Rightarrow> None
                                   | Some c \<Rightarrow> Some zero_counts),
       crossedTracks := Map.empty\<rparr>"

subsection \<open>Geometry\<close>

definition lineIntersection :: "point \<Rightarrow> point \<Rightarrow> point \<Rightarrow> point \<Rightarrow> point option" where
  "lineIntersection p1 p2 p3 p4 =
     (let x1 = fst p1; y1 = snd p1; x2 = fst p2; y2 = snd p2;
          x3 = fst p3; y3 = snd p3; x4 = fst p4; y4 = snd p4;
          denominator = (y4 - y3) * (x2 - x1) - (x4 - x3) * (y2 - y1)
      in if \<bar>denominator\<bar> < 0.0001 then None
         else
           (let ua = ((x4 - x3) * (y1 - y3) - (y4 - y3) * (x1 - x3)) / denominator;
                ub = ((x2 - x1) * (y1 - y3) - (y2 - y1) * (x1 - x3)) / denominator
            in if ua < 0 \<or> ua > 1 \<or> ub < 0 \<or> ub > 1 then None
               else Some (x1 + ua * (x2 - x1), y1 + ua * (y2 - y1))))"

definition getSide :: "real \<Rightarrow> real \<Rightarrow> real \<Rightarrow> real \<Rightarrow> real \<Rightarrow> real \<Rightarrow> real" where
  "getSide px py x1 y1 x2 y2 = (x2 - x1) * (py - y1) - (y2 - y1) * (px - x1)"

text \<open>The two branches of \<^verbatim>\<open>determineLineCrossingDirection\<close>, as written.\<close>

definition vertical_direction :: "real \<Rightarrow> real \<Rightarrow> direction" where
  "vertical_direction prevSide currSide = (if prevSide \<le> 0 \<and> currSide > 0 then In else Out)"

definition horizontal_direction :: "real \<Rightarrow> real \<Rightarrow> direction" where
  "horizontal_direction prevSide currSide = (if prevSide \<le> 0 \<and> currSide > 0 then In else Out)"

definition determineLineCrossingDirection ::
  "point \<Rightarrow> point \<Rightarrow> point \<Rightarrow> point \<Rightarrow> direction" where
  "determineLineCrossingDirection p1 p2 lineStart lineEnd =
     (let prevSide = getSide (fst p1) (snd p1) (fst lineStart) (snd lineStart)
                       (fst lineEnd) (snd lineEnd);
          currSide = getSide (fst p2) (snd p2) (fst lineStart) (snd lineStart)
                       (fst lineEnd) (snd lineEnd);
          dx = fst lineEnd - fst lineStart;
          dy = snd lineEnd - snd lineStart;
          isVertical = \<bar>dx\<bar> < \<bar>dy\<bar>
      in if isVertical then vertical_direction prevSide currSide
         else horizontal_direction prevSide currSide)"

text \<open>
  Ray casting: \<^verbatim>\<open>for (i = 0, j = n - 1; i < n; j = i++)\<close>. The loop state is
  \<open>(j, inside)\<close>; the division is only evaluated when \<open>yi \<noteq> yj\<close>.
\<close>

definition polygon_step :: "point \<Rightarrow> point list \<Rightarrow> nat \<Rightarrow> nat \<times> bool \<Rightarrow> nat \<times> bool" where
  "polygon_step p polygon i st =
     (let x = fst p; y = snd p; j = fst st; inside = snd st;
          xi = fst (polygon ! i); yi = snd (polygon ! i);
          xj = fst (polygon ! j); yj = snd (polygon ! j);
          intersect = (((yi > y) \<noteq> (yj > y)) \<and> x < (xj - xi) * (y - yi) / (yj - yi) + xi)
      in (i, if intersect then \<not> inside else inside))"

definition isPointInPolygon :: "point \<Rightarrow> point list \<Rightarrow> bool" where
  "isPointInPolygon p polygon =
     snd (fold (polygon_step p polygon) [0..<length polygon] (length polygon - 1, False))"

subsection \<open>Crossing engine\<close>

definition crossingKey :: "nat \<Rightarrow> nat \<Rightarrow> string" where
  "crossingKey personId lineId = string_of_nat personId @ ''-'' @ string_of_nat lineId"

fun bump :: "direction \<Rightarrow> counts \<Rightarrow> counts" where
  "bump In c = c\<lparr>c_in := c_in c + 1\<rparr>"
| "bump Out c = c\<lparr>c_out := c_out c + 1\<rparr>"

definition counts_or_zero :: "line_manager \<Rightarrow> nat \<Rightarrow> counts" where
  "counts_or_zero s lineId =
     (case lineCrossings s lineId of None \<Rightarrow> zero_counts | Some c \<Rightarrow> c)"

text \<open>
  The body of the loop of \<^verbatim>\<open>checkLineCrossings\<close> for a boundary of kind line;
  \<open>now\<close> is the value \<^verbatim>\<open>Date.now()\<close> returns in this iteration.
\<close>

definition checkLine ::
  "int \<Rightarrow> boundary \<Rightarrow> point \<Rightarrow> point \<Rightarrow> nat \<Rightarrow> point \<Rightarrow> point \<Rightarrow> line_manager \<Rightarrow> line_manager" where
  "checkLine now line lineStart lineEnd personId scaledPrevPos scaledCurrentPos s =
     (case lineIntersection scaledPrevPos scaledCurrentPos lineStart lineEnd of
        None \<Rightarrow> s
      | Some intersection \<Rightarrow>
          (let key = crossingKey personId (b_id line);
               lastCrossing = crossedTracks s key
           in if (case lastCrossing of
                    None \<Rightarrow> False
                  | Some lc \<Rightarrow> now - cr_timestamp lc < 2000)
              then s
              else
                (let dir = determineLineCrossingDirection scaledPrevPos scaledCurrentPos
                             lineStart lineEnd;
                     crossingEvent =
                       \<lparr>ev_lineId = b_id line, ev_lineName = b_name line,
                        ev_personId = personId, ev_direction = dir,
                        ev_position = intersection, ev_timestamp = now\<rparr>
                 in s\<lparr>lineCrossings :=
                         (lineCrossings s)(b_id line \<mapsto> bump dir (counts_or_zero s (b_id line))),
                       crossedTracks :=
                         (crossedTracks s)(key \<mapsto> \<lparr>cr_timestamp = now, cr_direction = dir\<rparr>),
                       emitted := emitted s @ [crossingEvent]\<rparr>)))"

text \<open>
  \<^verbatim>\<open>checkAreaCrossing\<close> mutates the area object it is given; here the area is the
  \<open>i\<close>-th entry of \<^verbatim>\<open>lines\<close> and the updated object is written back there.
\<close>

fun set_inside :: "nat set \<Rightarrow> shape \<Rightarrow> shape" where
  "set_inside ins (LineShape st en ori) = LineShape st en ori"
| "set_inside ins (RectArea st en inside) = RectArea st en ins"
| "set_inside ins (PolyArea pts inside) = PolyArea pts ins"

definition area_contains :: "shape \<Rightarrow> point \<Rightarrow> bool" where
  "area_contains shp currentPos =
     (case shp of
        PolyArea pts inside \<Rightarrow> isPointInPolygon currentPos pts
      | RectArea st en inside \<Rightarrow>
          (let x = fst currentPos; y = snd currentPos;
               areaX = min (fst st) (fst en);
               areaY = min (snd st) (snd en);
               areaWidth = \<bar>fst en - fst st\<bar>;
               areaHeight = \<bar>snd en - snd st\<bar>
           in x \<ge> areaX \<and> x \<le> areaX + areaWidth \<and> y \<ge> areaY \<and> y \<le> areaY + areaHeight)
      | LineShape st en ori \<Rightarrow> False)"

definition checkAreaCrossing :: "int \<Rightarrow> nat \<Rightarrow> nat \<Rightarrow> point \<Rightarrow> line_manager \<Rightarrow> line_manager" where
  "checkAreaCrossing now i personId currentPos s =
     (let area = lines s ! i in
      case peopleInside area of
        None \<Rightarrow> s
      | Some inside \<Rightarrow>
          (let isInside = area_contains (b_shape area) currentPos;
               wasInside = (personId \<in> inside)
           in if isInside \<and> \<not> wasInside then
                (let area' = area\<lparr>b_shape := set_inside (insert personId inside) (b_shape area)\<rparr>;
                     crossingEvent =
                       \<lparr>ev_lineId = b_id area, ev_lineName = b_name area,
                        ev_personId = personId, ev_direction = In,
                        ev_position = currentPos, ev_timestamp = now\<rparr>
                 in s\<lparr>lines := (lines s)[i := area'],
                       lineCrossings :=
                         (lineCrossings s)(b_id area \<mapsto> bump In (counts_or_zero s (b_id area))),
                       emitted := emitted s @ [crossingEvent]\<rparr>)
              else if \<not> isInside \<and> wasInside then
                (let area' = area\<lparr>b_shape := set_inside (inside - {personId}) (b_shape area)\<rparr>;
                     crossingEvent =
                       \<lparr>ev_lineId = b_id area, ev_lineName = b_name area,
                        ev_personId = personId, ev_direction = Out,
                        ev_position = currentPos, ev_timestamp = now\<rparr>
                 in s\<lparr>lines := (lines s)[i := area'],
                       lineCrossings :=
                         (lineCrossings s)(b_id area \<mapsto> bump Out (counts_or_zero s (b_id area))),
                       emitted := emitted s @ [crossingEvent]\<rparr>)
              else s))"

text \<open>One iteration of the loop over \<^verbatim>\<open>this.lines\<close>, for the boundary at index \<open>i\<close>.\<close>

definition checkBoundary ::
  "int \<Rightarrow> nat \<Rightarrow> nat \<Rightarrow> point \<Rightarrow> point \<Rightarrow> line_manager \<Rightarrow> line_manager" where
  "checkBoundary now i personId scaledPrevPos scaledCurrentPos s =
     (let line = lines s ! i in
      case b_shape line of
        LineShape st en ori \<Rightarrow>
          checkLine now line st en personId scaledPrevPos scaledCurrentPos s
      | RectArea st en inside \<Rightarrow> checkAreaCrossing now i personId scaledCurrentPos s
      | PolyArea pts inside \<Rightarrow> checkAreaCrossing now i personId scaledCurrentPos s)"

text \<open>
  \<^verbatim>\<open>checkLineCrossings(person, prevPos, currentPos)\<close>. A missing argument and a
  person whose id is falsy (\<open>0\<close>) return at once. \<open>clock i\<close> is what
  \<^verbatim>\<open>Date.now()\<close> returns while the boundary at index \<open>i\<close> is processed. The
  scale factors are quotients of DOM dimensions; a video width or height of \<open>0\<close> is
  outside this model (the quotient is not a finite number then).
\<close>

definition checkLineCrossings ::
  "(nat \<Rightarrow> int) \<Rightarrow> nat option \<Rightarrow> point option \<Rightarrow> point option \<Rightarrow> line_manager \<Rightarrow> line_manager" where
  "checkLineCrossings clock person prevPos currentPos s =
     (case (person, prevPos, currentPos) of
        (Some personId, Some pp, Some cp) \<Rightarrow>
          if personId = 0 then s
          else
            (let scaleX = canvasWidth s / videoWidth s;
                 scaleY = canvasHeight s / videoHeight s;
                 scaledPrevPos = (fst pp * scaleX, snd pp * scaleY);
                 scaledCurrentPos = (fst cp * scaleX, snd cp * scaleY)
             in fold (\<lambda>i. checkBoundary (clock i) i personId scaledPrevPos scaledCurrentPos)
                  [0..<length (lines s)] s)
      | _ \<Rightarrow> s)"

subsection \<open>Interactive drawing\<close>

text \<open>
  The mouse handlers, on the canvas coordinates \<open>(x, y)\<close> computed from the event.
  In area mode clicks collect polygon vertices and a click within 20 pixels of the
  first vertex, once three are present, submits the polygon; in line mode a drag is
  submitted on mouse-up when it is at least 20 pixels long.
\<close>

definition enableDrawing :: "line_manager \<Rightarrow> line_manager" where
  "enableDrawing s = s\<lparr>isDrawingEnabled := True\<rparr>"

definition setDrawingMode :: "btype \<Rightarrow> line_manager \<Rightarrow> line_manager" where
  "setDrawingMode mode s = s\<lparr>drawingMode := mode\<rparr>"

definition handleMouseDown :: "point \<Rightarrow> line_manager \<Rightarrow> line_manager" where
  "handleMouseDown p s =
     (if \<not> isDrawingEnabled s then s
      else if drawingMode s = Area then
        (if length (drawingPoints s) \<ge> 3
            \<and> sqrt ((fst p - fst (hd (drawingPoints s)))\<^sup>2
                     + (snd p - snd (hd (drawingPoints s)))\<^sup>2) < 20
         then (snd (addLine \<lparr>rq_type = Some Area, rq_geometry = Points (drawingPoints s),
                              rq_name = None\<rparr> s))\<lparr>drawingPoints := []\<rparr>
         else s\<lparr>drawingPoints := drawingPoints s @ [p]\<rparr>)
      else s\<lparr>isDrawing := True, drawingLine := Some (p, p)\<rparr>)"

definition handleMouseUp :: "point \<Rightarrow> line_manager \<Rightarrow> line_manager" where
  "handleMouseUp p s =
     (if \<not> isDrawing s \<or> drawingMode s = Area then s
      else case drawingLine s of
        None \<Rightarrow> s
      | Some (st, en0) \<Rightarrow>
          (let en = p;
               dx = fst en - fst st;
               dy = snd en - snd st;
               len = sqrt (dx * dx + dy * dy);
               s1 = (if len \<ge> 20
                     then snd (addLine \<lparr>rq_type = Some (drawingMode s),
                                         rq_geometry = Endpoints st en, rq_name = None\<rparr> s)
                     else s)
           in s1\<lparr>isDrawing := False, drawingLine := None\<rparr>))"

subsection \<open>Runs of the line manager\<close>

text \<open>
  A run is a sequence of calls of the registry's methods. \<open>keeps_cooldown\<close> holds of
  the calls after which every boundary still in the registry keeps its deduplication
  records: all but \<^verbatim>\<open>removeLine\<close> and \<^verbatim>\<open>resetCounts\<close>
  (\<^verbatim>\<open>clearLines\<close> empties the registry, and ids are not reused).
  \<open>is_line s b\<close> says that the registry holds a boundary of kind line under the id
  \<open>b\<close>. \<open>dedup_inv n s\<close> is the invariant that relates the events emitted from
  position \<open>n\<close> of the event sequence on to the deduplication map.
\<close>

datatype lm_op =
    AddLine request
  | RemoveLine nat
  | ClearLines
  | ResetCounts
  | CheckCrossings "nat \<Rightarrow> int" "nat option" "point option" "point option"

fun apply_op :: "lm_op \<Rightarrow> line_manager \<Rightarrow> line_manager" where
  "apply_op (AddLine line) s = snd (addLine line s)"
| "apply_op (RemoveLine lineId) s = snd (removeLine lineId s)"
| "apply_op ClearLines s = clearLines s"
| "apply_op ResetCounts s = resetCounts s"
| "apply_op (CheckCrossings clock person prevPos currentPos) s =
     checkLineCrossings clock person prevPos currentPos s"

definition run_ops :: "lm_op list \<Rightarrow> line_manager \<Rightarrow> line_manager" where
  "run_ops ops s = fold apply_op ops s"

fun keeps_cooldown :: "lm_op \<Rightarrow> bool" where
  "keeps_cooldown (AddLine line) = True"
| "keeps_cooldown (RemoveLine lineId) = False"
| "keeps_cooldown ClearLines = True"
| "keeps_cooldown ResetCounts = False"
| "keeps_cooldown (CheckCrossings clock person prevPos currentPos) = True"

definition is_line :: "line_manager \<Rightarrow> nat \<Rightarrow> bool" where
  "is_line s b = (\<exists>l \<in> set (lines s). b_id l = b \<and> b_type l = Line)"

definition same_pair :: "crossing_event \<Rightarrow> crossing_event \<Rightarrow> bool" where
  "same_pair e e' = (ev_personId e = ev_personId e' \<and> ev_lineId e = ev_lineId e')"

definition registry_ok :: "line_manager \<Rightarrow> bool" where
  "registry_ok s =
     (distinct (map b_id (lines s)) \<and> (\<forall>l \<in> set (lines s). b_id l < nextLineId s))"

definition dedup_inv :: "nat \<Rightarrow> line_manager \<Rightarrow> bool" where
  "dedup_inv n s =
     (registry_ok s
      \<and> n \<le> length (emitted s)
      \<and> (\<forall>e \<in> set (drop n (emitted s)). ev_lineId e < nextLineId s)
      \<and> (\<forall>e \<in> set (drop n (emitted s)). is_line s (ev_lineId e) \<longrightarrow>
            (\<exists>lc. crossedTracks s (crossingKey (ev_personId e) (ev_lineId e)) = Some lc
                  \<and> ev_timestamp e \<le> cr_timestamp lc))
      \<and> (\<forall>i j. n \<le> i \<and> i < j \<and> j < length (emitted s)
              \<and> same_pair (emitted s ! i) (emitted s ! j)
              \<and> is_line s (ev_lineId (emitted s ! j))
            \<longrightarrow> ev_timestamp (emitted s ! j) - ev_timestamp (emitted s ! i) \<ge> 2000))"

section \<open>Person tracker\<close>

text \<open>
  A JavaScript object whose keys are track ids enumerates them in ascending numeric
  order. It is modelled as an association list kept in that order: \<open>obj_put\<close> is
  the assignment \<^verbatim>\<open>obj[k] = v\<close>, \<^const>\<open>map_of\<close> the lookup \<^verbatim>\<open>obj[k]\<close>.
\<close>

fun obj_put :: "nat \<Rightarrow> 'a \<Rightarrow> (nat \<times> 'a) list \<Rightarrow> (nat \<times> 'a) list" where
  "obj_put k v [] = [(k, v)]"
| "obj_put k v (p # ps) =
     (if k < fst p then (k, v) # p # ps
      else if k = fst p then (k, v) # ps
      else p # obj_put k v ps)"

definition js_object :: "(nat \<times> 'a) list \<Rightarrow> bool" where
  "js_object ps = sorted_wrt (<) (map fst ps)"

type_synonym bbox = "real \<times> real \<times> real \<times> real"

record detection =
  d_bbox :: bbox
  d_class :: string
  d_score :: real
  d_isMovingAcross :: "bool option"

record history_entry =
  h_timestamp :: int
  h_bbox :: bbox
  h_centroid :: point
  h_score :: real

record track =
  t_id :: nat
  t_bbox :: bbox
  t_lastSeen :: int
  t_history :: "history_entry list"
  t_isMovingAcross :: "bool option"

record tracker =
  confidenceThreshold :: real
  maxDisappearedFrames :: int
  historyLength :: int
  isModelLoaded :: bool
  nextTrackId :: nat
  tracks :: "(nat \<times> track) list"
  disappeared :: "nat \<rightharpoonup> nat"

record tracker_options =
  o_confidenceThreshold :: "real option"
  o_maxDisappearedFrames :: "int option"
  o_historyLength :: "int option"

text \<open>\<^verbatim>\<open>options.x || d\<close> on a number: a missing or zero value gives the default.\<close>

definition or_default :: "'a::zero option \<Rightarrow> 'a \<Rightarrow> 'a" where
  "or_default v d = (case v of None \<Rightarrow> d | Some x \<Rightarrow> if x = 0 then d else x)"

definition new_PersonTracker :: "tracker_options \<Rightarrow> tracker" where
  "new_PersonTracker options =
     \<lparr>confidenceThreshold = or_default (o_confidenceThreshold options) 0.4,
      maxDisappearedFrames = or_default (o_maxDisappearedFrames options) 15,
      historyLength = or_default (o_historyLength options) 10,
      isModelLoaded = False,
      nextTrackId = 1,
      tracks = [],
      disappeared = Map.empty\<rparr>"

definition initialize :: "error + unit \<Rightarrow> tracker \<Rightarrow> error + tracker" where
  "initialize loaded s =
     (if isModelLoaded s then Inr s
      else case loaded of Inl e \<Rightarrow> Inl e | Inr u \<Rightarrow> Inr (s\<lparr>isModelLoaded := True\<rparr>))"

definition centroid_of :: "bbox \<Rightarrow> point" where
  "centroid_of b = (case b of (x, y, width, height) \<Rightarrow> (x + width / 2, y + height / 2))"

text \<open>\<open>now\<close> is the reading of \<^verbatim>\<open>Date.now()\<close> during the frame being processed.\<close>

definition initializeTrack :: "nat \<Rightarrow> int \<Rightarrow> detection \<Rightarrow> track" where
  "initializeTrack trackId now det =
     \<lparr>t_id = trackId,
      t_bbox = d_bbox det,
      t_lastSeen = now,
      t_history = [\<lparr>h_timestamp = now, h_bbox = d_bbox det,
                     h_centroid = centroid_of (d_bbox det), h_score = d_score det\<rparr>],
      t_isMovingAcross = d_isMovingAcross det\<rparr>"

definition updateTrack :: "int \<Rightarrow> int \<Rightarrow> track \<Rightarrow> detection \<Rightarrow> track" where
  "updateTrack histLen now trk det =
     (let pushed = t_history trk @ [\<lparr>h_timestamp = now, h_bbox = d_bbox det,
                                      h_centroid = centroid_of (d_bbox det),
                                      h_score = d_score det\<rparr>];
          limited = (if int (length pushed) > histLen then tl pushed else pushed)
      in trk\<lparr>t_lastSeen := now,
              t_bbox := d_bbox det,
              t_history := limited,
              t_isMovingAcross := (case d_isMovingAcross det of
                                     None \<Rightarrow> t_isMovingAcross trk
                                   | Some m \<Rightarrow> Some m)\<rparr>)"

definition calculateIoU :: "bbox \<Rightarrow> bbox \<Rightarrow> real" where
  "calculateIoU bbox1 bbox2 =
     (case (bbox1, bbox2) of ((ax, ay, aw, ah), (bx, by, bw, bh)) \<Rightarrow>
        (let ax2 = ax + aw; ay2 = ay + ah; bx2 = bx + bw; by2 = by + bh;
             xOverlap = max 0 (min ax2 bx2 - max ax bx);
             yOverlap = max 0 (min ay2 by2 - max ay by);
             intersectionArea = xOverlap * yOverlap;
             box1Area = (ax2 - ax) * (ay2 - ay);
             box2Area = (bx2 - bx) * (by2 - by);
             unionArea = box1Area + box2Area - intersectionArea
         in if unionArea > 0 then intersectionArea / unionArea else 0))"

definition calculateIoUMatrix :: "tracker \<Rightarrow> detection list \<Rightarrow> real list list" where
  "calculateIoUMatrix s detections =
     map (\<lambda>kt. map (\<lambda>det. calculateIoU (t_bbox (snd kt)) (d_bbox det)) detections) (tracks s)"

definition minIoU :: real where
  "minIoU = 0.3"

text \<open>
  The inner loop of the greedy matching: the state is \<open>(maxIoU, maxIdx)\<close>, started at
  \<open>(-1, -1)\<close>; \<open>matchedDetections\<close> is the set of detection indices already taken.
\<close>

definition best_step :: "int set \<Rightarrow> real list \<Rightarrow> nat \<Rightarrow> real \<times> int \<Rightarrow> real \<times> int" where
  "best_step matchedDetections trackIoUs j st =
     (if int j \<notin> matchedDetections \<and> trackIoUs ! j > fst st then (trackIoUs ! j, int j)
      else st)"

definition best_detection :: "int set \<Rightarrow> real list \<Rightarrow> real \<times> int" where
  "best_detection matchedDetections trackIoUs =
     fold (best_step matchedDetections trackIoUs) [0..<length trackIoUs] (- 1, - 1)"

definition match_step ::
  "nat list \<Rightarrow> real list list \<Rightarrow> nat \<Rightarrow> (nat \<times> int) list \<times> int set \<Rightarrow> (nat \<times> int) list \<times> int set" where
  "match_step trackIds iouMatrix i st =
     (let trackId = trackIds ! i;
          trackIoUs = iouMatrix ! i;
          best = best_detection (snd st) trackIoUs
      in if fst best \<ge> minIoU then (fst st @ [(trackId, snd best)], insert (snd best) (snd st))
         else st)"

definition matchDetectionsToTracks ::
  "tracker \<Rightarrow> real list list \<Rightarrow> detection list \<Rightarrow> (nat \<times> int) list \<times> nat list" where
  "matchDetectionsToTracks s iouMatrix detections =
     (if length iouMatrix = 0 then ([], [0..<length detections])
      else
        (let trackIds = map fst (tracks s);
             res = fold (match_step trackIds iouMatrix) [0..<length iouMatrix] ([], {})
         in (fst res, filter (\<lambda>i. int i \<notin> snd res) [0..<length detections])))"

record update_result =
  r_tracks :: "(nat \<times> track) list"
  r_updated :: "nat list"
  r_disappeared :: "nat list"

definition disappeared_or_zero :: "(nat \<rightharpoonup> nat) \<Rightarrow> nat \<Rightarrow> nat" where
  "disappeared_or_zero dis trackId = (case dis trackId of None \<Rightarrow> 0 | Some c \<Rightarrow> c)"

text \<open>
  The first loop of \<^verbatim>\<open>handleDisappearances\<close>, over the entries of \<^verbatim>\<open>this.tracks\<close>;
  the state is \<open>(currentTracks, this.disappeared, disappeared)\<close>.
\<close>

definition disappear_step ::
  "int \<Rightarrow> nat \<times> track \<Rightarrow> (nat \<times> track) list \<times> (nat \<rightharpoonup> nat) \<times> nat list
     \<Rightarrow> (nat \<times> track) list \<times> (nat \<rightharpoonup> nat) \<times> nat list" where
  "disappear_step maxFrames kt st =
     (case st of (currentTracks, dis, gone) \<Rightarrow>
        if map_of currentTracks (fst kt) = None then
          (let n = disappeared_or_zero dis (fst kt) + 1;
               dis' = dis(fst kt \<mapsto> n)
           in if int n > maxFrames then (currentTracks, dis', gone @ [fst kt])
              else (obj_put (fst kt) (snd kt) currentTracks, dis', gone))
        else st)"

definition handleDisappearances ::
  "(nat \<times> track) list \<Rightarrow> nat list \<Rightarrow> tracker \<Rightarrow> update_result \<times> tracker" where
  "handleDisappearances currentTracks updated s =
     (case fold (disappear_step (maxDisappearedFrames s)) (tracks s)
             (currentTracks, disappeared s, []) of
        (cur, dis, gone) \<Rightarrow>
          (\<lparr>r_tracks = cur, r_updated = updated, r_disappeared = gone\<rparr>,
           s\<lparr>tracks := cur, disappeared := fold (\<lambda>trackId d. d(trackId := None)) gone dis\<rparr>))"

text \<open>
  The loops of \<^verbatim>\<open>updateTracks\<close>. A matched track is read from \<^verbatim>\<open>this.tracks\<close>
  (its id is one of the keys, so the lookup finds it), updated and stored in
  \<^verbatim>\<open>currentTracks\<close>; the state of that loop is
  \<open>(currentTracks, updated, this.disappeared)\<close>. A detection left unmatched gets the
  next id; the state of that loop also carries \<^verbatim>\<open>this.nextTrackId\<close>.
\<close>

definition matched_step ::
  "tracker \<Rightarrow> int \<Rightarrow> detection list \<Rightarrow> nat \<times> int
     \<Rightarrow> (nat \<times> track) list \<times> nat list \<times> (nat \<rightharpoonup> nat)
     \<Rightarrow> (nat \<times> track) list \<times> nat list \<times> (nat \<rightharpoonup> nat)" where
  "matched_step s now detections m st =
     (case st of (currentTracks, updated, dis) \<Rightarrow>
        (case map_of (tracks s) (fst m) of
           None \<Rightarrow> st
         | Some trk \<Rightarrow>
             (obj_put (fst m) (updateTrack (historyLength s) now trk (detections ! nat (snd m)))
                currentTracks,
              updated @ [fst m],
              dis(fst m \<mapsto> 0))))"

definition spawn_step ::
  "int \<Rightarrow> detection
     \<Rightarrow> (nat \<times> track) list \<times> nat list \<times> (nat \<rightharpoonup> nat) \<times> nat
     \<Rightarrow> (nat \<times> track) list \<times> nat list \<times> (nat \<rightharpoonup> nat) \<times> nat" where
  "spawn_step now det st =
     (case st of (currentTracks, updated, dis, nextId) \<Rightarrow>
        (obj_put nextId (initializeTrack nextId now det) currentTracks,
         updated @ [nextId],
         dis(nextId \<mapsto> 0),
         nextId + 1))"

definition first_step ::
  "int \<Rightarrow> detection \<Rightarrow> (nat \<times> track) list \<times> nat list \<times> nat
     \<Rightarrow> (nat \<times> track) list \<times> nat list \<times> nat" where
  "first_step now det st =
     (case st of (currentTracks, updated, nextId) \<Rightarrow>
        (obj_put nextId (initializeTrack nextId now det) currentTracks,
         updated @ [nextId],
         nextId + 1))"

definition updateTracks :: "int \<Rightarrow> detection list \<Rightarrow> tracker \<Rightarrow> update_result \<times> tracker" where
  "updateTracks now detections s =
     (if length detections = 0 then handleDisappearances [] [] s
      else if length (tracks s) = 0 then
        (case fold (first_step now) detections ([], [], nextTrackId s) of
           (cur, updated, nextId) \<Rightarrow>
             (\<lparr>r_tracks = cur, r_updated = updated, r_disappeared = []\<rparr>,
              s\<lparr>tracks := cur, nextTrackId := nextId\<rparr>))
      else
        (let iouMatrix = calculateIoUMatrix s detections;
             mu = matchDetectionsToTracks s iouMatrix detections
         in case fold (matched_step s now detections) (fst mu) ([], [], disappeared s) of
              (cur1, updated1, dis1) \<Rightarrow>
                (case fold (\<lambda>detectionIdx. spawn_step now (detections ! detectionIdx)) (snd mu)
                        (cur1, updated1, dis1, nextTrackId s) of
                   (cur2, updated2, dis2, nextId) \<Rightarrow>
                     handleDisappearances cur2 updated2
                       (s\<lparr>disappeared := dis2, nextTrackId := nextId\<rparr>))))"

text \<open>
  A frame either comes with synthetic detections (\<^verbatim>\<open>window.useSyntheticDetections\<close>;
  they are drawn at random, so they are an input here) or with the outcome of the
  detector adapter's call, which returns predictions or throws.
\<close>

datatype frame_source = Synthetic "detection list" | Detector "error + detection list"

definition detectPeople :: "error + detection list \<Rightarrow> tracker \<Rightarrow> detection list" where
  "detectPeople adapter s =
     (case adapter of
        Inl e \<Rightarrow> []
      | Inr predictions \<Rightarrow>
          filter (\<lambda>pred. d_class pred = ''person'' \<and> d_score pred \<ge> confidenceThreshold s)
            predictions)"

record frame_result =
  f_detections :: "detection list"
  f_tracks :: "(nat \<times> track) list"
  f_updated :: "nat list"
  f_disappeared :: "nat list"

definition processFrame :: "int \<Rightarrow> frame_source \<Rightarrow> tracker \<Rightarrow> error + frame_result \<times> tracker" where
  "processFrame now src s =
     (case src of
        Synthetic ds \<Rightarrow>
          (case updateTracks now ds s of
             (r, s') \<Rightarrow> Inr (\<lparr>f_detections = ds, f_tracks = r_tracks r,
                               f_updated = r_updated r, f_disappeared = r_disappeared r\<rparr>, s'))
      | Detector adapter \<Rightarrow>
          if \<not> isModelLoaded s then Inl NotInitialized
          else
            (let ds = detectPeople adapter s in
             case updateTracks now ds s of
               (r, s') \<Rightarrow> Inr (\<lparr>f_detections = ds, f_tracks = r_tracks r,
                                 f_updated = r_updated r, f_disappeared = r_disappeared r\<rparr>, s')))"


section \<open>Scenarios\<close>

text \<open>
  Scenario A of the specification: one vertical line at \<open>x = 100\<close> from
  \<open>(100, y1)\<close> to \<open>(100, y2)\<close> on a canvas 200 wide, a video \<open>vw\<close> wide of the
  canvas's height, and one track moving from \<open>(50, 50)\<close> to \<open>(150, 50)\<close>.
\<close>

definition vertical_line_at_100 :: "real \<Rightarrow> real \<Rightarrow> request" where
  "vertical_line_at_100 y1 y2 =
     \<lparr>rq_type = None, rq_geometry = Endpoints (100, y1) (100, y2), rq_name = None\<rparr>"

definition scenario_A :: "real \<Rightarrow> real \<Rightarrow> request \<Rightarrow> (nat \<Rightarrow> int) \<Rightarrow> nat \<Rightarrow> line_manager" where
  "scenario_A height vw line clock personId =
     checkLineCrossings clock (Some personId) (Some (50, 50)) (Some (150, 50))
       (snd (addLine line (new_LineManager 200 height vw height)))"

text \<open>
  A rectangular area with corners \<open>(0, 0)\<close> and \<open>(100, 100)\<close>; track 1 steps into it at
  time 1000 and out of it again at time 1100.
\<close>

definition unit_square :: request where
  "unit_square =
     \<lparr>rq_type = Some Area, rq_geometry = Endpoints (0, 0) (100, 100), rq_name = None\<rparr>"

definition area_visit :: line_manager where
  "area_visit =
     checkLineCrossings (\<lambda>i. 1100) (Some 1) (Some (50, 50)) (Some (150, 150))
       (checkLineCrossings (\<lambda>i. 1000) (Some 1) (Some (150, 150)) (Some (50, 50))
          (snd (addLine unit_square (new_LineManager 200 200 200 200))))"


text \<open>
  The registry after ten lines were added and those with ids 2 to 9 removed again;
  then track 5 crosses line 10.
\<close>

definition lines_1_and_10 :: line_manager where
  "lines_1_and_10 =
     \<lparr>canvasWidth = 200, canvasHeight = 200, videoWidth = 200, videoHeight = 200,
      lines = [\<lparr>b_id = 1, b_name = ''North Entrance'',
                 b_shape = LineShape (0, 0) (10, 0) Horizontal\<rparr>,
               \<lparr>b_id = 10, b_name = ''Horizontal Line 10'',
                 b_shape = LineShape (100, 100) (200, 100) Horizontal\<rparr>],
      nextLineId = 11,
      lineCrossings = [1 \<mapsto> zero_counts, 10 \<mapsto> zero_counts],
      crossedTracks = Map.empty,
      emitted = [], isDrawingEnabled = False, isDrawing = False, drawingLine = None,
      drawingMode = Line, drawingPoints = []\<rparr>"

definition line_10_crossed :: line_manager where
  "line_10_crossed =
     checkLineCrossings (\<lambda>i. 1000) (Some 5) (Some (150, 50)) (Some (150, 150)) lines_1_and_10"

text \<open>Degenerate creation requests, and two drawings in progress.\<close>

definition zero_length_line :: request where
  "zero_length_line =
     \<lparr>rq_type = Some Line, rq_geometry = Endpoints (10, 10) (10, 10), rq_name = None\<rparr>"

definition two_vertex_polygon :: request where
  "two_vertex_polygon =
     \<lparr>rq_type = Some Area, rq_geometry = Points [(0, 0), (5, 5)], rq_name = None\<rparr>"

definition zero_area_rectangle :: request where
  "zero_area_rectangle =
     \<lparr>rq_type = Some Area, rq_geometry = Endpoints (10, 10) (10, 50), rq_name = None\<rparr>"

definition drag_started :: line_manager where
  "drag_started = handleMouseDown (10, 10) (enableDrawing (new_LineManager 200 200 200 200))"

definition two_points_clicked :: line_manager where
  "two_points_clicked =
     handleMouseDown (5, 5)
       (handleMouseDown (0, 0)
          (setDrawingMode Area (enableDrawing (new_LineManager 200 200 200 200))))"

text \<open>
  Track 1 crosses line 1 at time 1000 and the counters are reset; the track crosses
  back at time 1600, and moves over the line again at times 2500 and 3600.
\<close>

definition line_added :: line_manager where
  "line_added = apply_op (AddLine (vertical_line_at_100 200 0)) (new_LineManager 200 200 200 200)"

definition first_crossing :: line_manager where
  "first_crossing =
     apply_op (CheckCrossings (\<lambda>i. 1000) (Some 1) (Some (50, 50)) (Some (150, 50))) line_added"

definition counts_reset :: line_manager where
  "counts_reset = apply_op ResetCounts first_crossing"

definition second_crossing :: line_manager where
  "second_crossing =
     apply_op (CheckCrossings (\<lambda>i. 1600) (Some 1) (Some (150, 50)) (Some (50, 50))) counts_reset"

definition early_return :: line_manager where
  "early_return =
     apply_op (CheckCrossings (\<lambda>i. 2500) (Some 1) (Some (50, 50)) (Some (150, 50))) second_crossing"

definition late_return :: line_manager where
  "late_return =
     apply_op (CheckCrossings (\<lambda>i. 3600) (Some 1) (Some (50, 50)) (Some (150, 50))) early_return"

definition until_reset :: "lm_op list" where
  "until_reset =
     [AddLine (vertical_line_at_100 200 0),
      CheckCrossings (\<lambda>i. 1000) (Some 1) (Some (50, 50)) (Some (150, 50)),
      ResetCounts]"

definition after_reset :: "lm_op list" where
  "after_reset =
     [CheckCrossings (\<lambda>i. 1600) (Some 1) (Some (150, 50)) (Some (50, 50)),
      CheckCrossings (\<lambda>i. 2500) (Some 1) (Some (50, 50)) (Some (150, 50)),
      CheckCrossings (\<lambda>i. 3600) (Some 1) (Some (50, 50)) (Some (150, 50))]"

text \<open>
  After track 5 crossed line 10 at time 1000, line 1 is removed and the track crosses
  line 10 back at time 1600.
\<close>

definition line_10_crossed_again :: line_manager where
  "line_10_crossed_again =
     checkLineCrossings (\<lambda>i. 1600) (Some 5) (Some (150, 150)) (Some (150, 50))
       (snd (removeLine 1 line_10_crossed))"

text \<open>The square area alone, before and after track 1 stepped into it at time 1000.\<close>

definition square_added :: line_manager where
  "square_added = snd (addLine unit_square (new_LineManager 200 200 200 200))"

definition square_entered :: line_manager where
  "square_entered = checkAreaCrossing 1000 0 1 (50, 50) square_added"

text \<open>
  A tracker that allows one unmatched frame and keeps two history entries. Frame 1
  shows two people; in frame 2 the first has moved by 10 pixels, the second is not
  detected and a third person appears; frame 3 has no detections.
\<close>

definition short_options :: tracker_options where
  "short_options = \<lparr>o_confidenceThreshold = None, o_maxDisappearedFrames = Some 1,
                     o_historyLength = Some 2\<rparr>"

definition person_at :: "real \<Rightarrow> real \<Rightarrow> detection" where
  "person_at x y = \<lparr>d_bbox = (x, y, 50, 100), d_class = ''person'', d_score = 0.9,
                     d_isMovingAcross = None\<rparr>"

definition tracker0 :: tracker where
  "tracker0 = (new_PersonTracker short_options)\<lparr>isModelLoaded := True\<rparr>"

definition tracker1 :: tracker where
  "tracker1 = snd (updateTracks 1000 [person_at 0 0, person_at 300 0] tracker0)"

definition tracker2 :: tracker where
  "tracker2 = snd (updateTracks 2000 [person_at 10 0, person_at 600 0] tracker1)"




section \<open>Evaluation lemmas\<close>

lemma string_of_nat_small: "n < 10 \<Longrightarrow> string_of_nat n = [digit_char n]"
  by (simp add: string_of_nat.simps)

lemma string_of_nat_large:
  "n \<ge> 10 \<Longrightarrow> string_of_nat n = string_of_nat (n div 10) @ [digit_char (n mod 10)]"
  by (subst string_of_nat.simps) simp

lemma upt_Cons_less: "i < j \<Longrightarrow> [i..<j] = i # [Suc i..<j]"
  by (rule upt_conv_Cons)

lemmas build_simps = new_LineManager_def addLine_def Let_def string_of_nat_small
  string_of_nat_large digit_char_def generateLineName_def defaultLineNames_def

lemmas check_simps = checkBoundary_def checkAreaCrossing_def area_contains_def
  counts_or_zero_def zero_counts_def checkLine_def lineIntersection_def
  determineLineCrossingDirection_def getSide_def vertical_direction_def
  horizontal_direction_def crossingKey_def Let_def string_of_nat_small string_of_nat_large
  digit_char_def

lemma intersection_A:
  assumes "y2 \<le> 50" "50 \<le> y1" "y1 - y2 \<ge> 1"
  shows "lineIntersection (50, 50) (150, 50) (100, y1) (100, y2) = Some (100, 50)"
proof -
  define d where "d = (y2 - y1) * (150 - 50) - (100 - 100) * (50 - (50::real))"
  have d_eq: "d = 100 * (y2 - y1)" by (simp add: d_def)
  have d_neg: "d < 0" using assms by (simp add: d_eq)
  have den: "\<not> \<bar>d\<bar> < 0.0001" using assms by (simp add: d_eq)
  define ua where "ua = ((100 - 100) * (50 - y1) - (y2 - y1) * (50 - 100)) / d"
  define ub where "ub = ((150 - 50) * (50 - y1) - (50 - 50) * (50 - 100)) / d"
  have ua: "ua = 1 / 2" using d_neg by (simp add: ua_def d_eq field_simps)
  have ub: "ub = (y1 - 50) / (y1 - y2)"
    using d_neg by (simp add: ub_def d_eq field_simps)
  have ub0: "0 \<le> ub" using assms by (simp add: ub)
  have ub1: "ub \<le> 1" using assms by (simp add: ub field_simps)
  have "lineIntersection (50, 50) (150, 50) (100, y1) (100, y2)
        = (if \<bar>d\<bar> < 0.0001 then None
           else if ua < 0 \<or> ua > 1 \<or> ub < 0 \<or> ub > 1 then None
           else Some (50 + ua * (150 - 50), 50 + ua * (50 - 50)))"
    unfolding lineIntersection_def Let_def fst_conv snd_conv d_def ua_def ub_def by (rule refl)
  also have "\<dots> = Some (100, 50)"
    using den ub0 ub1 by (simp add: ua not_less)
  finally show ?thesis .
qed


lemma fold_invariant:
  assumes "P s" and "\<And>x s. x \<in> set xs \<Longrightarrow> P s \<Longrightarrow> P (f x s)"
  shows "P (fold f xs s)"
  using assms by (induction xs arbitrary: s) auto

section \<open>Lemmas about the deduplication of line crossings\<close>

lemma nth_in_drop: "n \<le> i \<Longrightarrow> i < length xs \<Longrightarrow> xs ! i \<in> set (drop n xs)"
proof -
  assume a: "n \<le> i" "i < length xs"
  have "drop n xs ! (i - n) = xs ! i" using a by simp
  moreover have "i - n < length (drop n xs)" using a by simp
  ultimately show ?thesis by (metis nth_mem)
qed

lemma registry_ok_init: "registry_ok (new_LineManager cw ch vw vh)"
  by (simp add: registry_ok_def new_LineManager_def)

lemma dedup_inv_start: "registry_ok s \<Longrightarrow> dedup_inv (length (emitted s)) s"
  by (simp add: dedup_inv_def)

lemma dedup_inv_registry: "dedup_inv n s \<Longrightarrow> registry_ok s"
  by (simp add: dedup_inv_def)

lemma dedup_inv_event:
  assumes inv: "dedup_inv n s"
    and kinds: "map (\<lambda>l. (b_id l, b_type l)) (lines s') = map (\<lambda>l. (b_id l, b_type l)) (lines s)"
    and nxt: "nextLineId s' = nextLineId s"
    and em: "emitted s' = emitted s @ [e]"
    and below: "ev_lineId e < nextLineId s"
    and A: "is_line s (ev_lineId e) \<Longrightarrow>
          \<exists>lc'. crossedTracks s' = (crossedTracks s)(crossingKey (ev_personId e) (ev_lineId e) \<mapsto> lc')
             \<and> cr_timestamp lc' = ev_timestamp e
             \<and> (\<forall>lc. crossedTracks s (crossingKey (ev_personId e) (ev_lineId e)) = Some lc
                   \<longrightarrow> ev_timestamp e - cr_timestamp lc \<ge> 2000)"
    and B: "\<not> is_line s (ev_lineId e) \<Longrightarrow> crossedTracks s' = crossedTracks s"
  shows "dedup_inv n s'"
proof -
  have ids: "map b_id (lines s') = map b_id (lines s)"
    using kinds by (metis (mono_tags, lifting) list.map_comp comp_def fst_conv map_eq_conv)
  have il: "\<And>b. is_line s' b = is_line s b"
  proof -
    fix b
    have "is_line s' b \<longleftrightarrow> (b, Line) \<in> set (map (\<lambda>l. (b_id l, b_type l)) (lines s'))"
      by (auto simp: is_line_def)
    also have "\<dots> \<longleftrightarrow> (b, Line) \<in> set (map (\<lambda>l. (b_id l, b_type l)) (lines s))"
      by (simp only: kinds)
    also have "\<dots> \<longleftrightarrow> is_line s b" by (auto simp: is_line_def)
    finally show "is_line s' b = is_line s b" .
  qed
  have ok: "registry_ok s" using inv by (rule dedup_inv_registry)
  have nl: "n \<le> length (emitted s)" using inv by (simp add: dedup_inv_def)
  have dr: "drop n (emitted s') = drop n (emitted s) @ [e]" using nl by (simp add: em)
  have I1: "distinct (map b_id (lines s'))" using ok by (simp add: ids registry_ok_def)
  have I2: "\<forall>l \<in> set (lines s'). b_id l < nextLineId s'"
  proof
    fix l assume "l \<in> set (lines s')"
    then have "b_id l \<in> set (map b_id (lines s))" unfolding ids [symmetric] by simp
    then show "b_id l < nextLineId s'" using ok nxt by (auto simp: registry_ok_def)
  qed
  have I0: "registry_ok s'" unfolding registry_ok_def using I1 I2 by (rule conjI)
  have In: "n \<le> length (emitted s')" using nl by (simp add: em)
  have I3: "\<forall>e' \<in> set (drop n (emitted s')). ev_lineId e' < nextLineId s'"
    using inv below by (auto simp: dr nxt dedup_inv_def)
  have old3: "\<And>e'. e' \<in> set (drop n (emitted s)) \<Longrightarrow> is_line s (ev_lineId e') \<Longrightarrow>
      \<exists>lc. crossedTracks s (crossingKey (ev_personId e') (ev_lineId e')) = Some lc
            \<and> ev_timestamp e' \<le> cr_timestamp lc"
    using inv by (simp add: dedup_inv_def)
  have I4: "\<forall>e' \<in> set (drop n (emitted s')). is_line s' (ev_lineId e') \<longrightarrow>
            (\<exists>lc. crossedTracks s' (crossingKey (ev_personId e') (ev_lineId e')) = Some lc
                  \<and> ev_timestamp e' \<le> cr_timestamp lc)"
  proof (intro ballI impI)
    fix e' assume mem: "e' \<in> set (drop n (emitted s'))" and l': "is_line s' (ev_lineId e')"
    have l: "is_line s (ev_lineId e')" using l' by (simp add: il)
    show "\<exists>lc. crossedTracks s' (crossingKey (ev_personId e') (ev_lineId e')) = Some lc
                  \<and> ev_timestamp e' \<le> cr_timestamp lc"
    proof (cases "is_line s (ev_lineId e)")
      case False
      then have ne: "e' \<noteq> e" using l by auto
      then have "e' \<in> set (drop n (emitted s))" using mem by (simp add: dr)
      then show ?thesis using old3 l B [OF False] by simp
    next
      case True
      then obtain lc' where lc':
        "crossedTracks s' = (crossedTracks s)(crossingKey (ev_personId e) (ev_lineId e) \<mapsto> lc')"
        "cr_timestamp lc' = ev_timestamp e"
        "\<forall>lc. crossedTracks s (crossingKey (ev_personId e) (ev_lineId e)) = Some lc
                   \<longrightarrow> ev_timestamp e - cr_timestamp lc \<ge> 2000"
        using A by blast
      show ?thesis
      proof (cases "e' = e")
        case True
        then show ?thesis by (simp add: lc')
      next
        case False
        then have "e' \<in> set (drop n (emitted s))" using mem by (simp add: dr)
        then obtain lc where lc: "crossedTracks s (crossingKey (ev_personId e') (ev_lineId e')) = Some lc"
          "ev_timestamp e' \<le> cr_timestamp lc"
          using old3 l by blast
        show ?thesis
        proof (cases "crossingKey (ev_personId e') (ev_lineId e') = crossingKey (ev_personId e) (ev_lineId e)")
          case True
          then have "ev_timestamp e - cr_timestamp lc \<ge> 2000" using lc(1) lc'(3) by simp
          then have "ev_timestamp e' \<le> cr_timestamp lc'" using lc(2) lc'(2) by linarith
          then show ?thesis by (simp add: lc'(1) True)
        next
          case False
          then show ?thesis using lc by (simp add: lc'(1))
        qed
      qed
    qed
  qed
  have I5: "\<forall>i j. n \<le> i \<and> i < j \<and> j < length (emitted s')
              \<and> same_pair (emitted s' ! i) (emitted s' ! j)
              \<and> is_line s' (ev_lineId (emitted s' ! j))
            \<longrightarrow> ev_timestamp (emitted s' ! j) - ev_timestamp (emitted s' ! i) \<ge> 2000"
  proof (intro allI impI)
    fix i j
    assume h: "n \<le> i \<and> i < j \<and> j < length (emitted s')
              \<and> same_pair (emitted s' ! i) (emitted s' ! j)
              \<and> is_line s' (ev_lineId (emitted s' ! j))"
    then have ni: "n \<le> i" and ij: "i < j" and jl: "j < length (emitted s) + 1"
      and sp: "same_pair (emitted s' ! i) (emitted s' ! j)"
      and l: "is_line s (ev_lineId (emitted s' ! j))"
      by (simp_all add: em il)
    show "ev_timestamp (emitted s' ! j) - ev_timestamp (emitted s' ! i) \<ge> 2000"
    proof (cases "j < length (emitted s)")
      case True
      then have "emitted s' ! j = emitted s ! j" "emitted s' ! i = emitted s ! i"
        using ij by (simp_all add: em nth_append)
      then show ?thesis using inv ni ij True sp l unfolding dedup_inv_def by metis
    next
      case False
      then have j: "j = length (emitted s)" using jl by simp
      have ej: "emitted s' ! j = e" by (simp add: em j)
      have ei: "emitted s' ! i = emitted s ! i" using ij j by (simp add: em nth_append)
      have mem: "emitted s ! i \<in> set (drop n (emitted s))"
        using ni ij j by (simp add: nth_in_drop)
      have le: "is_line s (ev_lineId e)" using l ej by simp
      have same: "ev_personId (emitted s ! i) = ev_personId e" "ev_lineId (emitted s ! i) = ev_lineId e"
        using sp by (simp_all add: same_pair_def ej ei)
      obtain lc where lc: "crossedTracks s (crossingKey (ev_personId e) (ev_lineId e)) = Some lc"
          "ev_timestamp (emitted s ! i) \<le> cr_timestamp lc"
        using old3 [OF mem] le same by auto
      have "ev_timestamp e - cr_timestamp lc \<ge> 2000" using A [OF le] lc(1) by auto
      then show ?thesis using lc(2) by (simp add: ej ei)
    qed
  qed
  show ?thesis unfolding dedup_inv_def using I0 In I3 I4 I5 by blast
qed

lemma checkLine_inv:
  assumes inv: "dedup_inv n s" and mem: "line \<in> set (lines s)" and ty: "b_type line = Line"
  shows "dedup_inv n (checkLine now line st en personId sp sc s)"
    and "lines (checkLine now line st en personId sp sc s) = lines s"
proof -
  define key where "key = crossingKey personId (b_id line)"
  show "lines (checkLine now line st en personId sp sc s) = lines s"
    by (simp add: checkLine_def Let_def split: option.splits)
  show "dedup_inv n (checkLine now line st en personId sp sc s)"
  proof (cases "lineIntersection sp sc st en")
    case None
    then show ?thesis using inv by (simp add: checkLine_def)
  next
    case (Some p)
    show ?thesis
    proof (cases "case crossedTracks s key of None \<Rightarrow> False | Some lc \<Rightarrow> now - cr_timestamp lc < 2000")
      case True
      then show ?thesis using inv Some by (simp add: checkLine_def Let_def key_def)
    next
      case False
      define dir where "dir = determineLineCrossingDirection sp sc st en"
      define e where "e = \<lparr>ev_lineId = b_id line, ev_lineName = b_name line,
                        ev_personId = personId, ev_direction = dir,
                        ev_position = p, ev_timestamp = now\<rparr>"
      define s' where "s' = s\<lparr>lineCrossings :=
                         (lineCrossings s)(b_id line \<mapsto> bump dir (counts_or_zero s (b_id line))),
                       crossedTracks :=
                         (crossedTracks s)(key \<mapsto> \<lparr>cr_timestamp = now, cr_direction = dir\<rparr>),
                       emitted := emitted s @ [e]\<rparr>"
      have eq: "checkLine now line st en personId sp sc s = s'"
        using Some False by (simp add: checkLine_def Let_def key_def s'_def e_def dir_def)
      have below: "ev_lineId e < nextLineId s"
        using inv mem by (simp add: e_def dedup_inv_def registry_ok_def)
      have A: "\<exists>lc'. crossedTracks s' = (crossedTracks s)(crossingKey (ev_personId e) (ev_lineId e) \<mapsto> lc')
             \<and> cr_timestamp lc' = ev_timestamp e
             \<and> (\<forall>lc. crossedTracks s (crossingKey (ev_personId e) (ev_lineId e)) = Some lc
                   \<longrightarrow> ev_timestamp e - cr_timestamp lc \<ge> 2000)"
      proof -
        have "\<forall>lc. crossedTracks s key = Some lc \<longrightarrow> now - cr_timestamp lc \<ge> 2000"
          using False by (auto split: option.splits)
        then show ?thesis
          by (intro exI [of _ "\<lparr>cr_timestamp = now, cr_direction = dir\<rparr>"])
            (simp add: s'_def e_def key_def)
      qed
      have il: "is_line s (ev_lineId e)" using mem ty by (auto simp: is_line_def e_def)
      have "dedup_inv n s'"
      proof (rule dedup_inv_event [OF inv, where e = e])
        show "map (\<lambda>l. (b_id l, b_type l)) (lines s') = map (\<lambda>l. (b_id l, b_type l)) (lines s)"
          by (simp add: s'_def)
        show "nextLineId s' = nextLineId s" by (simp add: s'_def)
        show "emitted s' = emitted s @ [e]" by (simp add: s'_def)
        show "ev_lineId e < nextLineId s" by (rule below)
        show "\<exists>lc'. crossedTracks s' = (crossedTracks s)(crossingKey (ev_personId e) (ev_lineId e) \<mapsto> lc')
             \<and> cr_timestamp lc' = ev_timestamp e
             \<and> (\<forall>lc. crossedTracks s (crossingKey (ev_personId e) (ev_lineId e)) = Some lc
                   \<longrightarrow> ev_timestamp e - cr_timestamp lc \<ge> 2000)"
          by (rule A)
        show "\<not> is_line s (ev_lineId e) \<Longrightarrow> crossedTracks s' = crossedTracks s"
          using il by simp
      qed
      then show ?thesis by (simp add: eq)
    qed
  qed
qed

lemma same_id_same_boundary:
  assumes "distinct (map b_id ls)" "l \<in> set ls" "l' \<in> set ls" "b_id l = b_id l'"
  shows "l = l'"
  using assms by (meson distinct_map inj_on_def)

lemma set_inside_type: "shape_type (set_inside ins shp) = shape_type shp"
  by (cases shp) simp_all

lemma kinds_update:
  assumes "i < length ls" "b_id a = b_id (ls ! i)" "b_type a = b_type (ls ! i)"
  shows "map (\<lambda>l. (b_id l, b_type l)) (ls[i := a]) = map (\<lambda>l. (b_id l, b_type l)) ls"
  using assms by (simp add: map_update list_update_same_conv)

lemma area_event_inv:
  assumes inv: "dedup_inv n s" and i: "i < length (lines s)"
    and ty: "b_type (lines s ! i) = Area"
    and a: "b_id a = b_id (lines s ! i)" "b_type a = b_type (lines s ! i)"
    and e: "ev_lineId e = b_id (lines s ! i)"
  shows "dedup_inv n (s\<lparr>lines := (lines s)[i := a], lineCrossings := lc, emitted := emitted s @ [e]\<rparr>)"
proof (rule dedup_inv_event [OF inv, where e = e])
  have mem: "lines s ! i \<in> set (lines s)" using i by simp
  have nl: "\<not> is_line s (ev_lineId e)"
  proof
    assume "is_line s (ev_lineId e)"
    then obtain l where l: "l \<in> set (lines s)" "b_id l = b_id (lines s ! i)" "b_type l = Line"
      by (auto simp: is_line_def e)
    have "distinct (map b_id (lines s))" using inv by (simp add: dedup_inv_def registry_ok_def)
    then have "l = lines s ! i" using l(1) mem l(2) by (rule same_id_same_boundary)
    then show False using l(3) ty by simp
  qed
  show "map (\<lambda>l. (b_id l, b_type l))
          (lines (s\<lparr>lines := (lines s)[i := a], lineCrossings := lc, emitted := emitted s @ [e]\<rparr>))
        = map (\<lambda>l. (b_id l, b_type l)) (lines s)"
    using kinds_update [OF i a] by simp
  show "nextLineId (s\<lparr>lines := (lines s)[i := a], lineCrossings := lc, emitted := emitted s @ [e]\<rparr>)
        = nextLineId s" by simp
  show "emitted (s\<lparr>lines := (lines s)[i := a], lineCrossings := lc, emitted := emitted s @ [e]\<rparr>)
        = emitted s @ [e]" by simp
  show "ev_lineId e < nextLineId s" using inv mem by (simp add: e dedup_inv_def registry_ok_def)
  show "is_line s (ev_lineId e) \<Longrightarrow>
        \<exists>lc'. crossedTracks (s\<lparr>lines := (lines s)[i := a], lineCrossings := lc, emitted := emitted s @ [e]\<rparr>)
                 = (crossedTracks s)(crossingKey (ev_personId e) (ev_lineId e) \<mapsto> lc')
             \<and> cr_timestamp lc' = ev_timestamp e
             \<and> (\<forall>lc. crossedTracks s (crossingKey (ev_personId e) (ev_lineId e)) = Some lc
                   \<longrightarrow> ev_timestamp e - cr_timestamp lc \<ge> 2000)"
    using nl by simp
  show "\<not> is_line s (ev_lineId e) \<Longrightarrow>
        crossedTracks (s\<lparr>lines := (lines s)[i := a], lineCrossings := lc, emitted := emitted s @ [e]\<rparr>)
          = crossedTracks s" by simp
qed

lemma checkAreaCrossing_inv:
  assumes inv: "dedup_inv n s" and i: "i < length (lines s)"
    and ty: "b_type (lines s ! i) = Area"
  shows "dedup_inv n (checkAreaCrossing now i personId cp s)"
    and "length (lines (checkAreaCrossing now i personId cp s)) = length (lines s)"
proof -
  show "length (lines (checkAreaCrossing now i personId cp s)) = length (lines s)"
    by (simp add: checkAreaCrossing_def Let_def split: option.splits)
  have upd: "\<And>ins e lc. ev_lineId e = b_id (lines s ! i) \<Longrightarrow>
      dedup_inv n (s\<lparr>lines := (lines s)[i := (lines s ! i)\<lparr>b_shape := set_inside ins (b_shape (lines s ! i))\<rparr>],
                   lineCrossings := lc, emitted := emitted s @ [e]\<rparr>)"
    by (rule area_event_inv [OF inv i ty]) (simp_all add: b_type_def set_inside_type)
  show "dedup_inv n (checkAreaCrossing now i personId cp s)"
    using inv by (auto simp: checkAreaCrossing_def Let_def upd split: option.splits)
qed

lemma checkBoundary_inv:
  assumes inv: "dedup_inv n s" and i: "i < length (lines s)"
  shows "dedup_inv n (checkBoundary now i personId sp sc s)
       \<and> length (lines (checkBoundary now i personId sp sc s)) = length (lines s)"
proof (cases "b_shape (lines s ! i)")
  case (LineShape st en ori)
  have mem: "lines s ! i \<in> set (lines s)" using i by simp
  have ty: "b_type (lines s ! i) = Line" by (simp add: b_type_def LineShape)
  show ?thesis
    using checkLine_inv [OF inv mem ty, of now st en personId sp sc]
    by (simp add: checkBoundary_def Let_def LineShape)
next
  case (RectArea st en inside)
  have ty: "b_type (lines s ! i) = Area" by (simp add: b_type_def RectArea)
  show ?thesis
    using checkAreaCrossing_inv [OF inv i ty, of now personId sc]
    by (simp add: checkBoundary_def Let_def RectArea)
next
  case (PolyArea pts inside)
  have ty: "b_type (lines s ! i) = Area" by (simp add: b_type_def PolyArea)
  show ?thesis
    using checkAreaCrossing_inv [OF inv i ty, of now personId sc]
    by (simp add: checkBoundary_def Let_def PolyArea)
qed

lemma checkLineCrossings_inv:
  assumes inv: "dedup_inv n s"
  shows "dedup_inv n (checkLineCrossings clock person prevPos currentPos s)"
proof -
  have loop: "\<And>personId sp sc.
      dedup_inv n (fold (\<lambda>i. checkBoundary (clock i) i personId sp sc) [0..<length (lines s)] s)"
  proof -
    fix personId sp sc
    have "dedup_inv n (fold (\<lambda>i. checkBoundary (clock i) i personId sp sc) [0..<length (lines s)] s)
        \<and> length (lines (fold (\<lambda>i. checkBoundary (clock i) i personId sp sc) [0..<length (lines s)] s))
            = length (lines s)"
    proof (rule fold_invariant [where P = "\<lambda>s'. dedup_inv n s' \<and> length (lines s') = length (lines s)"])
      show "dedup_inv n s \<and> length (lines s) = length (lines s)" using inv by simp
    next
      fix x s'
      assume x: "x \<in> set [0..<length (lines s)]"
        and p: "dedup_inv n s' \<and> length (lines s') = length (lines s)"
      have xl: "x < length (lines s')" using x p by simp
      show "dedup_inv n (checkBoundary (clock x) x personId sp sc s')
          \<and> length (lines (checkBoundary (clock x) x personId sp sc s')) = length (lines s)"
        using checkBoundary_inv [OF _ xl, of n "clock x" personId sp sc] p by simp
    qed
    then show "dedup_inv n (fold (\<lambda>i. checkBoundary (clock i) i personId sp sc) [0..<length (lines s)] s)"
      by simp
  qed
  show ?thesis
    using inv loop by (simp add: checkLineCrossings_def Let_def split: option.splits)
qed

lemma addLine_fields:
  "nextLineId (snd (addLine line s)) = nextLineId s + 1"
  "crossedTracks (snd (addLine line s)) = crossedTracks s"
  "emitted (snd (addLine line s)) = emitted s"
  "lines (snd (addLine line s))
     = (case fst (addLine line s) of Inl err \<Rightarrow> lines s | Inr b \<Rightarrow> lines s @ [b])"
  "fst (addLine line s) = Inr b \<Longrightarrow> b_id b = nextLineId s"
  by (auto simp: addLine_def Let_def split: option.splits btype.splits req_geometry.splits)

lemma addLine_inv:
  assumes inv: "dedup_inv n s"
  shows "dedup_inv n (snd (addLine line s))"
proof -
  define s' where "s' = snd (addLine line s)"
  have nx: "nextLineId s' = nextLineId s + 1" and ct: "crossedTracks s' = crossedTracks s"
    and em: "emitted s' = emitted s"
    by (simp_all add: s'_def addLine_fields)
  have ln: "lines s' = lines s \<or> (\<exists>b. b_id b = nextLineId s \<and> lines s' = lines s @ [b])"
  proof (cases "fst (addLine line s)")
    case (Inl err)
    then show ?thesis by (simp add: s'_def addLine_fields(4))
  next
    case (Inr b)
    then show ?thesis using addLine_fields(5) [OF Inr] by (simp add: s'_def addLine_fields(4))
  qed
  have old: "distinct (map b_id (lines s))" "\<forall>l \<in> set (lines s). b_id l < nextLineId s"
    "\<forall>e \<in> set (drop n (emitted s)). ev_lineId e < nextLineId s"
    "n \<le> length (emitted s)"
    using inv by (simp_all add: dedup_inv_def registry_ok_def)
  have il: "\<And>k. k < nextLineId s \<Longrightarrow> is_line s' k = is_line s k"
    using ln by (auto simp: is_line_def)
  have I1: "distinct (map b_id (lines s'))"
  proof (cases "lines s' = lines s")
    case True
    then show ?thesis using old(1) by simp
  next
    case False
    then obtain b where b: "b_id b = nextLineId s" "lines s' = lines s @ [b]" using ln by blast
    have "nextLineId s \<notin> b_id ` set (lines s)"
    proof
      assume "nextLineId s \<in> b_id ` set (lines s)"
      then obtain l where "l \<in> set (lines s)" "b_id l = nextLineId s" by auto
      then show False using old(2) by fastforce
    qed
    then show ?thesis using old(1) by (simp add: b)
  qed
  have I2: "\<forall>l \<in> set (lines s'). b_id l < nextLineId s'"
  proof
    fix l assume "l \<in> set (lines s')"
    then have "l \<in> set (lines s) \<or> b_id l = nextLineId s" using ln by auto
    then show "b_id l < nextLineId s'" using old(2) nx by fastforce
  qed
  have I0: "registry_ok s'" unfolding registry_ok_def using I1 I2 by (rule conjI)
  have In: "n \<le> length (emitted s')" using old(4) by (simp add: em)
  have I3: "\<forall>e \<in> set (drop n (emitted s')). ev_lineId e < nextLineId s'"
    using old(3) by (fastforce simp: em nx)
  have I4: "\<forall>e \<in> set (drop n (emitted s')). is_line s' (ev_lineId e) \<longrightarrow>
          (\<exists>lc. crossedTracks s' (crossingKey (ev_personId e) (ev_lineId e)) = Some lc
                \<and> ev_timestamp e \<le> cr_timestamp lc)"
  proof (intro ballI impI)
    fix e assume m: "e \<in> set (drop n (emitted s'))" and l: "is_line s' (ev_lineId e)"
    have m': "e \<in> set (drop n (emitted s))" using m by (simp add: em)
    then have "ev_lineId e < nextLineId s" using old(3) by simp
    then have "is_line s (ev_lineId e)" using l il by simp
    then have "\<exists>lc. crossedTracks s (crossingKey (ev_personId e) (ev_lineId e)) = Some lc
                \<and> ev_timestamp e \<le> cr_timestamp lc"
      using inv m' by (simp add: dedup_inv_def)
    then show "\<exists>lc. crossedTracks s' (crossingKey (ev_personId e) (ev_lineId e)) = Some lc
                \<and> ev_timestamp e \<le> cr_timestamp lc"
      by (simp add: ct)
  qed
  have I5: "\<forall>i j. n \<le> i \<and> i < j \<and> j < length (emitted s')
            \<and> same_pair (emitted s' ! i) (emitted s' ! j)
            \<and> is_line s' (ev_lineId (emitted s' ! j))
          \<longrightarrow> ev_timestamp (emitted s' ! j) - ev_timestamp (emitted s' ! i) \<ge> 2000"
  proof (intro allI impI)
    fix i j
    assume h: "n \<le> i \<and> i < j \<and> j < length (emitted s')
            \<and> same_pair (emitted s' ! i) (emitted s' ! j)
            \<and> is_line s' (ev_lineId (emitted s' ! j))"
    have "emitted s ! j \<in> set (drop n (emitted s))" using h by (simp add: em nth_in_drop)
    then have "ev_lineId (emitted s ! j) < nextLineId s" using old(3) by simp
    then have "is_line s (ev_lineId (emitted s ! j))" using h il by (simp add: em)
    then show "ev_timestamp (emitted s' ! j) - ev_timestamp (emitted s' ! i) \<ge> 2000"
      using inv h unfolding dedup_inv_def em by metis
  qed
  have "dedup_inv n s'" unfolding dedup_inv_def using I0 In I3 I4 I5 by blast
  then show ?thesis by (simp add: s'_def)
qed

lemma clearLines_inv: "dedup_inv n s \<Longrightarrow> dedup_inv n (clearLines s)"
  by (simp add: dedup_inv_def registry_ok_def is_line_def clearLines_def)

lemma keeps_cooldown_inv:
  assumes "keeps_cooldown x" "dedup_inv n s"
  shows "dedup_inv n (apply_op x s)"
  using assms by (cases x) (simp_all add: addLine_inv checkLineCrossings_inv clearLines_inv)

lemma set_remove_first: "set (remove_first k ls) \<subseteq> set ls"
  by (induction ls) auto

lemma distinct_remove_first:
  "distinct (map b_id ls) \<Longrightarrow> distinct (map b_id (remove_first k ls))"
proof (induction ls)
  case Nil
  then show ?case by simp
next
  case (Cons l ls)
  have "b_id ` set (remove_first k ls) \<subseteq> b_id ` set ls"
    using set_remove_first [of k ls] by blast
  then show ?case using Cons by auto
qed

lemma apply_op_registry:
  assumes ok: "registry_ok s"
  shows "registry_ok (apply_op x s)"
proof (cases "keeps_cooldown x")
  case True
  have "dedup_inv (length (emitted s)) (apply_op x s)"
    using True dedup_inv_start [OF ok] by (rule keeps_cooldown_inv)
  then show ?thesis by (rule dedup_inv_registry)
next
  case False
  have d: "distinct (map b_id (lines s))" and b: "\<forall>l \<in> set (lines s). b_id l < nextLineId s"
    using ok by (simp_all add: registry_ok_def)
  show ?thesis
  proof (cases x)
    case (RemoveLine lineId)
    have "\<forall>l \<in> set (remove_first lineId (lines s)). b_id l < nextLineId s"
      using b set_remove_first [of lineId "lines s"] by blast
    then show ?thesis
      using d ok by (simp add: RemoveLine removeLine_def registry_ok_def distinct_remove_first)
  next
    case ClearLines
    then show ?thesis using False by simp
  next
    case ResetCounts
    then show ?thesis using ok by (simp add: resetCounts_def registry_ok_def)
  next
    case (AddLine line)
    then show ?thesis using False by simp
  next
    case (CheckCrossings clock person prevPos currentPos)
    then show ?thesis using False by simp
  qed
qed

lemma run_ops_registry: "registry_ok s \<Longrightarrow> registry_ok (run_ops ops s)"
  unfolding run_ops_def
proof (rule fold_invariant [where P = registry_ok])
  fix x s' assume "registry_ok s'"
  then show "registry_ok (apply_op x s')" by (rule apply_op_registry)
qed

lemma run_ops_inv:
  assumes "list_all keeps_cooldown ops" "dedup_inv n s"
  shows "dedup_inv n (run_ops ops s)"
  unfolding run_ops_def
proof (rule fold_invariant [where P = "dedup_inv n"])
  show "dedup_inv n s" by (rule assms(2))
next
  fix x s' assume "x \<in> set ops" "dedup_inv n s'"
  then show "dedup_inv n (apply_op x s')"
    using assms(1) by (simp add: list_all_iff keeps_cooldown_inv)
qed

lemma run_ops_append: "run_ops (ops1 @ ops2) s = run_ops ops2 (run_ops ops1 s)"
  by (simp add: run_ops_def)

lemma run_ops_cooldown:
  assumes "list_all keeps_cooldown ops2"
  shows "dedup_inv (length (emitted (run_ops ops1 (new_LineManager cw ch vw vh))))
           (run_ops (ops1 @ ops2) (new_LineManager cw ch vw vh))"
proof -
  have "registry_ok (run_ops ops1 (new_LineManager cw ch vw vh))"
    by (rule run_ops_registry) (rule registry_ok_init)
  then have st: "dedup_inv (length (emitted (run_ops ops1 (new_LineManager cw ch vw vh))))
      (run_ops ops1 (new_LineManager cw ch vw vh))"
    by (rule dedup_inv_start)
  show ?thesis
    unfolding run_ops_append using assms st by (rule run_ops_inv)
qed

lemma area_crossing_counted:
  assumes k: "k < length (lines s)" and ins: "peopleInside (lines s ! k) = Some inside"
    and ch: "area_contains (b_shape (lines s ! k)) cp \<noteq> (personId \<in> inside)"
  shows "emitted (checkAreaCrossing now k personId cp s)
           = emitted s @ [\<lparr>ev_lineId = b_id (lines s ! k), ev_lineName = b_name (lines s ! k),
                            ev_personId = personId,
                            ev_direction = (if personId \<in> inside then Out else In),
                            ev_position = cp, ev_timestamp = now\<rparr>]"
    and "lineCrossings (checkAreaCrossing now k personId cp s) (b_id (lines s ! k))
           = Some (bump (if personId \<in> inside then Out else In)
                     (counts_or_zero s (b_id (lines s ! k))))"
    and "peopleInside (lines (checkAreaCrossing now k personId cp s) ! k)
           = Some (if personId \<in> inside then inside - {personId} else insert personId inside)"
    and "crossedTracks (checkAreaCrossing now k personId cp s) = crossedTracks s"
proof -
  have sh: "peopleInside ((lines s ! k)\<lparr>b_shape := set_inside ins' (b_shape (lines s ! k))\<rparr>) = Some ins'"
    for ins'
    using ins by (cases "b_shape (lines s ! k)") simp_all
  show "emitted (checkAreaCrossing now k personId cp s)
           = emitted s @ [\<lparr>ev_lineId = b_id (lines s ! k), ev_lineName = b_name (lines s ! k),
                            ev_personId = personId,
                            ev_direction = (if personId \<in> inside then Out else In),
                            ev_position = cp, ev_timestamp = now\<rparr>]"
    using ins ch by (auto simp: checkAreaCrossing_def Let_def simp del: peopleInside.simps)
  show "lineCrossings (checkAreaCrossing now k personId cp s) (b_id (lines s ! k))
           = Some (bump (if personId \<in> inside then Out else In)
                     (counts_or_zero s (b_id (lines s ! k))))"
    using ins ch by (auto simp: checkAreaCrossing_def Let_def counts_or_zero_def
        simp del: peopleInside.simps)
  show "peopleInside (lines (checkAreaCrossing now k personId cp s) ! k)
           = Some (if personId \<in> inside then inside - {personId} else insert personId inside)"
    using ins ch k sh by (auto simp: checkAreaCrossing_def Let_def simp del: peopleInside.simps)
  show "crossedTracks (checkAreaCrossing now k personId cp s) = crossedTracks s"
    using ins ch by (auto simp: checkAreaCrossing_def Let_def simp del: peopleInside.simps)
qed

lemma line_crossing_counted:
  assumes p: "lineIntersection sp sc st en = Some p"
    and late: "\<forall>lc'. crossedTracks s (crossingKey personId (b_id line)) = Some lc'
                  \<longrightarrow> 2000 \<le> now - cr_timestamp lc'"
  shows "emitted (checkLine now line st en personId sp sc s)
           = emitted s @ [\<lparr>ev_lineId = b_id line, ev_lineName = b_name line,
                            ev_personId = personId,
                            ev_direction = determineLineCrossingDirection sp sc st en,
                            ev_position = p, ev_timestamp = now\<rparr>]
       \<and> lineCrossings (checkLine now line st en personId sp sc s) (b_id line)
           = Some (bump (determineLineCrossingDirection sp sc st en)
                     (counts_or_zero s (b_id line)))
       \<and> crossedTracks (checkLine now line st en personId sp sc s)
             (crossingKey personId (b_id line))
           = Some \<lparr>cr_timestamp = now,
                    cr_direction = determineLineCrossingDirection sp sc st en\<rparr>"
proof -
  have "\<not> (case crossedTracks s (crossingKey personId (b_id line)) of
             None \<Rightarrow> False | Some lc \<Rightarrow> now - cr_timestamp lc < 2000)"
    using late by (auto split: option.splits)
  then show ?thesis using p by (simp add: checkLine_def Let_def)
qed

text \<open>The event sequence is only ever appended to.\<close>

lemma checkBoundary_appends:
  "\<exists>es. emitted (checkBoundary now i personId sp sc s) = emitted s @ es"
  by (cases "b_shape (lines s ! i)")
    (auto simp: checkBoundary_def checkLine_def checkAreaCrossing_def Let_def
      split: option.splits)

lemma checkLineCrossings_appends:
  "\<exists>es. emitted (checkLineCrossings clock person prevPos currentPos s) = emitted s @ es"
proof -
  have loop: "\<exists>es. emitted (fold (\<lambda>i. checkBoundary (clock i) i personId sp sc) xs s) = emitted s @ es"
    for personId sp sc xs
  proof (rule fold_invariant [where P = "\<lambda>s'. \<exists>es. emitted s' = emitted s @ es"])
    show "\<exists>es. emitted s = emitted s @ es" by simp
  next
    fix x and s' :: line_manager assume "\<exists>es. emitted s' = emitted s @ es"
    then obtain es where es: "emitted s' = emitted s @ es" by blast
    obtain es' where "emitted (checkBoundary (clock x) x personId sp sc s') = emitted s' @ es'"
      using checkBoundary_appends by blast
    then have "emitted (checkBoundary (clock x) x personId sp sc s') = emitted s @ (es @ es')"
      by (simp add: es)
    then show "\<exists>es. emitted (checkBoundary (clock x) x personId sp sc s') = emitted s @ es"
      by blast
  qed
  show ?thesis
    using loop by (simp add: checkLineCrossings_def Let_def split: option.splits)
qed

lemma apply_op_appends: "\<exists>es. emitted (apply_op x s) = emitted s @ es"
proof (cases x)
  case (AddLine line)
  then show ?thesis by (simp add: addLine_fields(3))
next
  case (RemoveLine lineId)
  then show ?thesis by (simp add: removeLine_def)
next
  case ClearLines
  then show ?thesis by (simp add: clearLines_def)
next
  case ResetCounts
  then show ?thesis by (simp add: resetCounts_def)
next
  case (CheckCrossings clock person prevPos currentPos)
  then show ?thesis by (simp add: checkLineCrossings_appends)
qed

lemma run_ops_appends: "\<exists>es. emitted (run_ops ops s) = emitted s @ es"
  unfolding run_ops_def
proof (rule fold_invariant [where P = "\<lambda>s'. \<exists>es. emitted s' = emitted s @ es"])
  show "\<exists>es. emitted s = emitted s @ es" by simp
next
  fix x and s' :: line_manager assume "\<exists>es. emitted s' = emitted s @ es"
  then obtain es where es: "emitted s' = emitted s @ es" by blast
  obtain es' where "emitted (apply_op x s') = emitted s' @ es'"
    using apply_op_appends by blast
  then have "emitted (apply_op x s') = emitted s @ (es @ es')" by (simp add: es)
  then show "\<exists>es. emitted (apply_op x s') = emitted s @ es" by blast
qed

lemma run_ops_events_kept:
  "take (length (emitted (run_ops ops1 s))) (emitted (run_ops (ops1 @ ops2) s))
     = emitted (run_ops ops1 s)"
proof -
  obtain es where "emitted (run_ops ops2 (run_ops ops1 s)) = emitted (run_ops ops1 s) @ es"
    using run_ops_appends by blast
  then show ?thesis by (simp add: run_ops_append)
qed

subsection \<open>The scenarios, evaluated\<close>

lemma until_reset_run:
  "run_ops until_reset (new_LineManager 200 200 200 200) = counts_reset"
  by (simp only: run_ops_def until_reset_def fold_simps comp_apply id_apply
      counts_reset_def first_crossing_def line_added_def)

lemma after_reset_run:
  "run_ops (until_reset @ after_reset) (new_LineManager 200 200 200 200) = late_return"
  unfolding run_ops_append until_reset_run
  by (simp only: run_ops_def after_reset_def fold_simps comp_apply id_apply late_return_def
      early_return_def second_crossing_def)

lemma line_added_facts:
  "lines line_added
     = [\<lparr>b_id = 1, b_name = ''North Entrance'', b_shape = LineShape (100, 200) (100, 0) Vertical\<rparr>]"
  "emitted line_added = []"
  "crossedTracks line_added k = None"
  "lineCrossings line_added b = (if b = 1 then Some \<lparr>c_in = 0, c_out = 0\<rparr> else None)"
  "canvasWidth line_added = 200" "canvasHeight line_added = 200"
  "videoWidth line_added = 200" "videoHeight line_added = 200"
  by (simp_all add: line_added_def vertical_line_at_100_def build_simps zero_counts_def)

lemma first_crossing_facts:
  "lines first_crossing
     = [\<lparr>b_id = 1, b_name = ''North Entrance'', b_shape = LineShape (100, 200) (100, 0) Vertical\<rparr>]"
  "map (\<lambda>e. (ev_personId e, ev_lineId e, ev_direction e, ev_timestamp e)) (emitted first_crossing)
     = [(1, 1, In, 1000)]"
  "crossedTracks first_crossing k
     = (if k = ''1-1'' then Some \<lparr>cr_timestamp = 1000, cr_direction = In\<rparr> else None)"
  "lineCrossings first_crossing b = (if b = 1 then Some \<lparr>c_in = 1, c_out = 0\<rparr> else None)"
  "canvasWidth first_crossing = 200" "canvasHeight first_crossing = 200"
  "videoWidth first_crossing = 200" "videoHeight first_crossing = 200"
  by (simp_all add: first_crossing_def checkLineCrossings_def line_added_facts check_simps
      upt_Cons_less del: upt_Suc)

lemma counts_reset_facts:
  "lines counts_reset
     = [\<lparr>b_id = 1, b_name = ''North Entrance'', b_shape = LineShape (100, 200) (100, 0) Vertical\<rparr>]"
  "map (\<lambda>e. (ev_personId e, ev_lineId e, ev_direction e, ev_timestamp e)) (emitted counts_reset)
     = [(1, 1, In, 1000)]"
  "crossedTracks counts_reset k = None"
  "lineCrossings counts_reset b = (if b = 1 then Some \<lparr>c_in = 0, c_out = 0\<rparr> else None)"
  "canvasWidth counts_reset = 200" "canvasHeight counts_reset = 200"
  "videoWidth counts_reset = 200" "videoHeight counts_reset = 200"
  by (simp_all add: counts_reset_def resetCounts_def first_crossing_facts zero_counts_def)

lemma second_crossing_facts:
  "lines second_crossing
     = [\<lparr>b_id = 1, b_name = ''North Entrance'', b_shape = LineShape (100, 200) (100, 0) Vertical\<rparr>]"
  "map (\<lambda>e. (ev_personId e, ev_lineId e, ev_direction e, ev_timestamp e)) (emitted second_crossing)
     = [(1, 1, In, 1000), (1, 1, Out, 1600)]"
  "crossedTracks second_crossing k
     = (if k = ''1-1'' then Some \<lparr>cr_timestamp = 1600, cr_direction = Out\<rparr> else None)"
  "lineCrossings second_crossing b = (if b = 1 then Some \<lparr>c_in = 0, c_out = 1\<rparr> else None)"
  "canvasWidth second_crossing = 200" "canvasHeight second_crossing = 200"
  "videoWidth second_crossing = 200" "videoHeight second_crossing = 200"
  by (simp_all add: second_crossing_def checkLineCrossings_def counts_reset_facts check_simps
      upt_Cons_less del: upt_Suc)

lemma early_return_facts:
  "early_return = second_crossing"
  by (simp add: early_return_def checkLineCrossings_def second_crossing_facts check_simps
      upt_Cons_less del: upt_Suc)

lemma late_return_facts:
  "map (\<lambda>l. (b_id l, b_type l)) (lines late_return) = [(1, Line)]"
  "map (\<lambda>e. (ev_personId e, ev_lineId e, ev_direction e, ev_timestamp e)) (emitted late_return)
     = [(1, 1, In, 1000), (1, 1, Out, 1600), (1, 1, In, 3600)]"
  "lineCrossings late_return 1 = Some \<lparr>c_in = 1, c_out = 1\<rparr>"
  by (simp_all add: late_return_def early_return_facts checkLineCrossings_def
      second_crossing_facts check_simps b_type_def upt_Cons_less del: upt_Suc)

lemma line_10_crossed_again_facts:
  "map (\<lambda>l. (b_id l, b_type l)) (lines line_10_crossed_again) = [(10, Line)]
   \<and> map (\<lambda>e. (ev_personId e, ev_lineId e, ev_direction e, ev_timestamp e))
        (emitted line_10_crossed_again) = [(5, 10, In, 1000), (5, 10, Out, 1600)]
   \<and> lineCrossings line_10_crossed_again 10 = Some \<lparr>c_in = 1, c_out = 1\<rparr>"
  unfolding line_10_crossed_again_def line_10_crossed_def lines_1_and_10_def
  apply (simp add: checkLineCrossings_def upt_Cons_less del: upt_Suc)
  apply (simp add: check_simps removeLine_def b_type_def)
  done

lemma square_added_facts:
  "lines square_added
     = [\<lparr>b_id = 1, b_name = ''Area 1'', b_shape = RectArea (0, 0) (100, 100) {}\<rparr>]"
  "emitted square_added = []"
  "lineCrossings square_added b = (if b = 1 then Some \<lparr>c_in = 0, c_out = 0\<rparr> else None)"
  by (simp_all add: square_added_def unit_square_def build_simps zero_counts_def)

lemma area_visit_facts:
  "map (\<lambda>l. (b_id l, b_type l)) (lines area_visit) = [(1, Area)]
   \<and> map (\<lambda>e. (ev_personId e, ev_lineId e, ev_direction e, ev_timestamp e)) (emitted area_visit)
       = [(1, 1, In, 1000), (1, 1, Out, 1100)]
   \<and> lineCrossings area_visit 1 = Some \<lparr>c_in = 1, c_out = 1\<rparr>"
  unfolding area_visit_def unit_square_def
  apply (simp add: build_simps)
  apply (simp add: checkLineCrossings_def upt_Cons_less del: upt_Suc)
  apply (simp add: check_simps b_type_def)
  done

lemma square_entered_facts:
  "lines square_entered
     = [\<lparr>b_id = 1, b_name = ''Area 1'', b_shape = RectArea (0, 0) (100, 100) {1}\<rparr>]"
  "map (\<lambda>e. (ev_personId e, ev_lineId e, ev_direction e, ev_timestamp e)) (emitted square_entered)
     = [(1, 1, In, 1000)]"
  "lineCrossings square_entered b = (if b = 1 then Some \<lparr>c_in = 1, c_out = 0\<rparr> else None)"
  by (simp_all add: square_entered_def square_added_facts check_simps)

section \<open>Properties of the line manager\<close>

subsection \<open>Direction of a line crossing\<close>

text \<open>
  Claim C7. For every previous position, current position and line segment, the
  classification is \<open>In\<close> exactly when the signed cross product of the previous
  position is at most 0 and that of the current position is positive, and \<open>Out\<close>
  otherwise; the branch taken for a vertical line and the branch taken for a
  horizontal line compute the same result, so the line's orientation class plays no
  role.
\<close>

theorem direction_sign_convention:
  "determineLineCrossingDirection (px, py) (cx, cy) (x1, y1) (x2, y2) =
     (if (x2 - x1) * (py - y1) - (y2 - y1) * (px - x1) \<le> 0
         \<and> (x2 - x1) * (cy - y1) - (y2 - y1) * (cx - x1) > 0
      then In else Out)
   \<and> vertical_direction prevSide currSide = horizontal_direction prevSide currSide
   \<and> (vertical_direction prevSide currSide = In \<longleftrightarrow> prevSide \<le> 0 \<and> currSide > 0)
   \<and> (vertical_direction prevSide currSide = Out \<longleftrightarrow> \<not> (prevSide \<le> 0 \<and> currSide > 0))"
  by (simp add: determineLineCrossingDirection_def getSide_def vertical_direction_def
      horizontal_direction_def Let_def)

theorem direction_sign_convention_witness:
  "determineLineCrossingDirection (50, 50) (150, 50) (100, 200) (100, 0) = In
   \<and> determineLineCrossingDirection (50, 50) (150, 50) (0, 100) (200, 100) = Out
   \<and> vertical_direction (- 1) 1 = horizontal_direction (- 1) 1
   \<and> vertical_direction (- 1) 1 = In
   \<and> vertical_direction 1 (- 1) = Out"
  using direction_sign_convention [of 50 50 150 50 100 200 100 0 "- 1" 1]
    direction_sign_convention [of 50 50 150 50 0 100 200 100 1 "- 1"]
  by auto

subsection \<open>Scenario A\<close>

text \<open>
  Claim C2, as stated, fails in two ways. First conjunct: the positions handed to
  \<^verbatim>\<open>checkLineCrossings\<close> are video coordinates and are scaled to the canvas, so with
  a video 400 wide on the canvas 200 wide the motion from \<open>(50, 50)\<close> to \<open>(150, 50)\<close>
  stays left of the line and nothing is counted. Second conjunct: with equal
  dimensions and the line given from its upper end \<open>(100, 0)\<close> to its lower end
  \<open>(100, 200)\<close>, the one event produced has direction \<open>Out\<close>.
\<close>

theorem scenario_A_counterexample:
  "emitted (scenario_A 200 400 (vertical_line_at_100 200 0) (\<lambda>i. 1000) 1) = []
   \<and> lineCrossings (scenario_A 200 400 (vertical_line_at_100 200 0) (\<lambda>i. 1000) 1) 1
       = Some \<lparr>c_in = 0, c_out = 0\<rparr>
   \<and> map ev_direction (emitted (scenario_A 200 200 (vertical_line_at_100 0 200) (\<lambda>i. 1000) 1))
       = [Out]
   \<and> lineCrossings (scenario_A 200 200 (vertical_line_at_100 0 200) (\<lambda>i. 1000) 1) 1
       = Some \<lparr>c_in = 0, c_out = 1\<rparr>"
  unfolding scenario_A_def vertical_line_at_100_def
  apply (simp add: build_simps)
  apply (simp add: checkLineCrossings_def upt_Cons_less del: upt_Suc)
  apply (simp add: check_simps)
  done

text \<open>
  Claim C2, amended. With a single vertical line at \<open>x = 100\<close> whose start is its
  lower end and whose end is its upper end (\<open>y2 \<le> 50 \<le> y1\<close>, at least one pixel
  long), on a canvas 200 wide showing a video of the same dimensions, for every track
  (of non-zero id) whose centroid moves from \<open>(50, 50)\<close> to \<open>(150, 50)\<close>, processing
  that segment produces exactly one crossing event, of direction \<open>In\<close>, and the line's
  counters are \<open>{in: 1, out: 0}\<close> afterwards.
\<close>

theorem scenario_A_upward_line:
  assumes "personId \<noteq> 0" "height \<noteq> 0" "y2 \<le> 50" "50 \<le> y1" "y1 - y2 \<ge> 1"
  shows "map (\<lambda>e. (ev_lineId e, ev_personId e, ev_direction e))
           (emitted (scenario_A height 200 (vertical_line_at_100 y1 y2) clock personId))
         = [(1, personId, In)]
       \<and> lineCrossings (scenario_A height 200 (vertical_line_at_100 y1 y2) clock personId) 1
         = Some \<lparr>c_in = 1, c_out = 0\<rparr>"
proof -
  have ver: "\<bar>0::real\<bar> < \<bar>y2 - y1\<bar>" using assms by simp
  have dir: "determineLineCrossingDirection (50, 50) (150, 50) (100, y1) (100, y2) = In"
    using assms by (simp add: determineLineCrossingDirection_def getSide_def Let_def
        vertical_direction_def horizontal_direction_def mult_le_0_iff zero_less_mult_iff)
  show ?thesis
    unfolding scenario_A_def vertical_line_at_100_def
    using assms(1,2) ver
    apply (simp add: new_LineManager_def addLine_def Let_def)
    apply (simp add: checkLineCrossings_def upt_Cons_less del: upt_Suc)
    apply (simp add: checkBoundary_def checkLine_def intersection_A [OF assms(3,4,5)] dir
        counts_or_zero_def zero_counts_def Let_def)
    done
qed

theorem scenario_A_upward_line_witness:
  "map (\<lambda>e. (ev_lineId e, ev_personId e, ev_direction e))
     (emitted (scenario_A 200 200 (vertical_line_at_100 200 0) (\<lambda>i. 1000) 7))
     = [(1, 7, In)]
   \<and> lineCrossings (scenario_A 200 200 (vertical_line_at_100 200 0) (\<lambda>i. 1000) 7) 1
     = Some \<lparr>c_in = 1, c_out = 0\<rparr>"
proof -
  have h: "(7::nat) \<noteq> 0" "(200::real) \<noteq> 0" "(0::real) \<le> 50" "(50::real) \<le> 200"
    "(200::real) - 0 \<ge> 1"
    by simp_all
  show ?thesis
    by (rule scenario_A_upward_line [OF h])
qed

subsection \<open>Resetting the counters\<close>




subsection \<open>Creating boundaries\<close>

text \<open>
  Claim C8, as stated, fails: \<^verbatim>\<open>addLine\<close> stores a zero-length line, a polygon of two
  vertices and a rectangle of zero area.
\<close>

theorem addLine_stores_degenerate_counterexample:
  "map b_shape (lines (snd (addLine zero_length_line (new_LineManager 200 200 200 200))))
     = [LineShape (10, 10) (10, 10) Horizontal]
   \<and> map b_shape (lines (snd (addLine two_vertex_polygon (new_LineManager 200 200 200 200))))
     = [PolyArea [(0, 0), (5, 5)] {}]
   \<and> map b_shape (lines (snd (addLine zero_area_rectangle (new_LineManager 200 200 200 200))))
     = [RectArea (10, 10) (10, 50) {}]"
  by (simp add: zero_length_line_def two_vertex_polygon_def zero_area_rectangle_def
      new_LineManager_def addLine_def Let_def)

text \<open>
  Claim C8, amended. \<^verbatim>\<open>addLine\<close> validates no geometry: every request for an area,
  and every request that carries two endpoints, is stored under the next id with
  zeroed counters, degenerate or not. Degenerate drawings are kept out earlier, by the
  mouse handlers: on mouse-up a dragged line shorter than 20 pixels (a zero-length one
  in particular) is discarded, and while fewer than three vertices have been clicked a
  click in area mode only adds a vertex.
\<close>

theorem addLine_never_validates:
  "(rq_type line = Some Area \<or> (\<exists>st en. rq_geometry line = Endpoints st en)
      \<longrightarrow> (\<exists>b. fst (addLine line s) = Inr b
                \<and> b_id b = nextLineId s
                \<and> lines (snd (addLine line s)) = lines s @ [b]
                \<and> lineCrossings (snd (addLine line s)) (nextLineId s)
                    = Some \<lparr>c_in = 0, c_out = 0\<rparr>))
   \<and> (isDrawing s \<and> drawingMode s = Line \<and> drawingLine s = Some (st0, en0)
        \<and> sqrt ((fst p - fst st0) * (fst p - fst st0) + (snd p - snd st0) * (snd p - snd st0))
            < 20
      \<longrightarrow> lines (handleMouseUp p s) = lines s)
   \<and> (isDrawingEnabled s \<and> drawingMode s = Area \<and> length (drawingPoints s) < 3
      \<longrightarrow> lines (handleMouseDown p s) = lines s
          \<and> drawingPoints (handleMouseDown p s) = drawingPoints s @ [p])"
  by (auto simp: addLine_def handleMouseUp_def handleMouseDown_def Let_def zero_counts_def
      split: option.splits btype.splits req_geometry.splits)

theorem addLine_never_validates_witness:
  "(\<exists>b. fst (addLine zero_length_line (new_LineManager 200 200 200 200)) = Inr b
        \<and> b_id b = 1
        \<and> lines (snd (addLine zero_length_line (new_LineManager 200 200 200 200))) = [b])
   \<and> isDrawing drag_started \<and> drawingLine drag_started = Some ((10, 10), (10, 10))
   \<and> lines (handleMouseUp (10, 10) drag_started) = []
   \<and> drawingPoints two_points_clicked = [(0, 0), (5, 5)]
   \<and> lines (handleMouseDown (1, 1) two_points_clicked) = []
   \<and> drawingPoints (handleMouseDown (1, 1) two_points_clicked) = [(0, 0), (5, 5), (1, 1)]"
proof -
  have a: "rq_geometry zero_length_line = Endpoints (10, 10) (10, 10)"
    by (simp add: zero_length_line_def)
  have d: "isDrawing drag_started" "drawingMode drag_started = Line"
    "drawingLine drag_started = Some ((10, 10), (10, 10))" "lines drag_started = []"
    by (simp_all add: drag_started_def handleMouseDown_def enableDrawing_def new_LineManager_def)
  have len: "sqrt ((fst (10, 10) - fst (10, 10)) * (fst (10, 10) - fst (10, 10))
               + (snd (10, 10) - snd (10, 10)) * (snd (10, 10) - snd (10::real, 10::real))) < 20"
    by simp
  have t: "isDrawingEnabled two_points_clicked" "drawingMode two_points_clicked = Area"
    "length (drawingPoints two_points_clicked) < 3"
    "drawingPoints two_points_clicked = [(0, 0), (5, 5)]" "lines two_points_clicked = []"
    by (simp_all add: two_points_clicked_def handleMouseDown_def enableDrawing_def
        setDrawingMode_def new_LineManager_def)
  show ?thesis
    using addLine_never_validates [where line = zero_length_line
        and s = "new_LineManager 200 200 200 200"]
      addLine_never_validates [where s = drag_started and ?st0.0 = "(10, 10)"
        and ?en0.0 = "(10, 10)" and p = "(10, 10)"]
      addLine_never_validates [where s = two_points_clicked and p = "(1, 1)"]
      a d len t
    by (auto simp: new_LineManager_def)
qed

subsection \<open>Removing a boundary\<close>

text \<open>
  Claim C10 at a concrete input. The registry holds lines 1 and 10 and track 5 has just
  crossed line 10, so the deduplication map holds a record under the key \<open>5-10\<close>.
  Removing line 1 deletes every key that contains \<open>-1\<close> as a substring, and with it
  the record of the pair (track 5, line 10), although line 10 stays in the registry.
\<close>

theorem removeLine_purges_other_boundary:
  "crossedTracks line_10_crossed (crossingKey 5 10)
       = Some \<lparr>cr_timestamp = 1000, cr_direction = In\<rparr>
   \<and> fst (removeLine 1 line_10_crossed) = True
   \<and> map b_id (lines (snd (removeLine 1 line_10_crossed))) = [10]
   \<and> crossedTracks (snd (removeLine 1 line_10_crossed)) (crossingKey 5 10) = None"
  unfolding line_10_crossed_def lines_1_and_10_def
  apply (simp add: checkLineCrossings_def upt_Cons_less del: upt_Suc)
  apply (simp add: check_simps removeLine_def)
  done

subsection \<open>Cooldown between counted crossings\<close>

text \<open>
  Claim C1, as stated, fails in three ways. An area has no cooldown: track 1 enters the
  square at time 1000 and leaves it at time 1100, and both crossings of the same
  boundary by the same track are counted and emitted, 100 ms apart.
  \<^verbatim>\<open>resetCounts\<close> clears the deduplication map: track 1 crosses line 1 at time
  1000, the counters are reset, and the crossing back at time 1600 is counted and
  emitted. \<^verbatim>\<open>removeLine\<close> deletes the records of other boundaries whose key
  contains the removed id: track 5 crosses line 10 at time 1000, line 1 is removed, and
  the crossing back at time 1600 is counted and emitted.
\<close>

theorem crossings_within_cooldown_counterexample:
  "map (\<lambda>l. (b_id l, b_type l)) (lines area_visit) = [(1, Area)]
   \<and> map (\<lambda>e. (ev_personId e, ev_lineId e, ev_direction e, ev_timestamp e)) (emitted area_visit)
       = [(1, 1, In, 1000), (1, 1, Out, 1100)]
   \<and> lineCrossings area_visit 1 = Some \<lparr>c_in = 1, c_out = 1\<rparr>
   \<and> map (\<lambda>l. (b_id l, b_type l)) (lines second_crossing) = [(1, Line)]
   \<and> map (\<lambda>e. (ev_personId e, ev_lineId e, ev_direction e, ev_timestamp e))
        (emitted second_crossing) = [(1, 1, In, 1000), (1, 1, Out, 1600)]
   \<and> map (\<lambda>l. (b_id l, b_type l)) (lines line_10_crossed_again) = [(10, Line)]
   \<and> map (\<lambda>e. (ev_personId e, ev_lineId e, ev_direction e, ev_timestamp e))
        (emitted line_10_crossed_again) = [(5, 10, In, 1000), (5, 10, Out, 1600)]
   \<and> lineCrossings line_10_crossed_again 10 = Some \<lparr>c_in = 1, c_out = 1\<rparr>"
proof -
  have k: "map (\<lambda>l. (b_id l, b_type l)) (lines second_crossing) = [(1, Line)]"
    by (simp add: second_crossing_facts b_type_def)
  show ?thesis
    using area_visit_facts k second_crossing_facts(2) line_10_crossed_again_facts by (intro conjI) blast+
qed

text \<open>
  Claim C1, amended. For every track id \<open>t\<close> and every boundary \<open>b\<close> of kind line,
  in every run of calls of \<^verbatim>\<open>addLine\<close>, \<^verbatim>\<open>removeLine\<close>,
  \<^verbatim>\<open>clearLines\<close>, \<^verbatim>\<open>resetCounts\<close> and \<^verbatim>\<open>checkLineCrossings\<close> from the
  initial registry: whenever two crossings of \<open>b\<close> by \<open>t\<close> are both accepted and
  neither \<^verbatim>\<open>removeLine\<close> nor \<^verbatim>\<open>resetCounts\<close> is called from the first of
  them on (the run is \<open>ops1 @ ops2\<close> and both events are emitted during \<open>ops2\<close>:
  events are only ever appended, so these are the events from position
  \<open>length (emitted (run_ops ops1 _))\<close> on), the later one's timestamp exceeds the
  earlier one's by at least 2000 ms. A crossing of a
  line that arrives less than 2000 ms after the crossing recorded for the same pair is
  dropped, leaving the whole state (counters, records, events) as it was. A crossing of
  a line with no record for the pair, or with a record at least 2000 ms old, is
  accepted: its event is emitted, the line's counter for its direction goes up by one
  and the record of the pair is set to it. Areas have no cooldown: whenever a track's
  containment in an area differs from its membership in \<^verbatim>\<open>peopleInside\<close>, the
  crossing is counted and emitted and the membership updated, whatever the time since
  the last one; the deduplication map is left as it was.
\<close>

theorem line_crossing_cooldown:
  "(list_all keeps_cooldown ops2
      \<and> length (emitted (run_ops ops1 (new_LineManager cw ch vw vh))) \<le> i
      \<and> i < j \<and> j < length (emitted (run_ops (ops1 @ ops2) (new_LineManager cw ch vw vh)))
      \<and> ev_personId (emitted (run_ops (ops1 @ ops2) (new_LineManager cw ch vw vh)) ! i)
          = ev_personId (emitted (run_ops (ops1 @ ops2) (new_LineManager cw ch vw vh)) ! j)
      \<and> ev_lineId (emitted (run_ops (ops1 @ ops2) (new_LineManager cw ch vw vh)) ! i)
          = ev_lineId (emitted (run_ops (ops1 @ ops2) (new_LineManager cw ch vw vh)) ! j)
      \<and> is_line (run_ops (ops1 @ ops2) (new_LineManager cw ch vw vh))
           (ev_lineId (emitted (run_ops (ops1 @ ops2) (new_LineManager cw ch vw vh)) ! j))
    \<longrightarrow> ev_timestamp (emitted (run_ops (ops1 @ ops2) (new_LineManager cw ch vw vh)) ! j)
          - ev_timestamp (emitted (run_ops (ops1 @ ops2) (new_LineManager cw ch vw vh)) ! i)
          \<ge> 2000)
   \<and> (crossedTracks s (crossingKey personId (b_id line)) = Some lc
        \<and> now - cr_timestamp lc < 2000
      \<longrightarrow> checkLine now line st en personId sp sc s = s)
   \<and> (lineIntersection sp sc st en = Some p
        \<and> (\<forall>lc'. crossedTracks s (crossingKey personId (b_id line)) = Some lc'
                  \<longrightarrow> 2000 \<le> now - cr_timestamp lc')
      \<longrightarrow> emitted (checkLine now line st en personId sp sc s)
            = emitted s @ [\<lparr>ev_lineId = b_id line, ev_lineName = b_name line,
                             ev_personId = personId,
                             ev_direction = determineLineCrossingDirection sp sc st en,
                             ev_position = p, ev_timestamp = now\<rparr>]
          \<and> lineCrossings (checkLine now line st en personId sp sc s) (b_id line)
            = Some (bump (determineLineCrossingDirection sp sc st en)
                      (counts_or_zero s (b_id line)))
          \<and> crossedTracks (checkLine now line st en personId sp sc s)
                (crossingKey personId (b_id line))
            = Some \<lparr>cr_timestamp = now,
                     cr_direction = determineLineCrossingDirection sp sc st en\<rparr>)
   \<and> (k < length (lines s) \<and> peopleInside (lines s ! k) = Some inside
        \<and> area_contains (b_shape (lines s ! k)) cp \<noteq> (personId \<in> inside)
      \<longrightarrow> emitted (checkAreaCrossing now k personId cp s)
            = emitted s @ [\<lparr>ev_lineId = b_id (lines s ! k), ev_lineName = b_name (lines s ! k),
                             ev_personId = personId,
                             ev_direction = (if personId \<in> inside then Out else In),
                             ev_position = cp, ev_timestamp = now\<rparr>]
          \<and> lineCrossings (checkAreaCrossing now k personId cp s) (b_id (lines s ! k))
            = Some (bump (if personId \<in> inside then Out else In)
                      (counts_or_zero s (b_id (lines s ! k))))
          \<and> peopleInside (lines (checkAreaCrossing now k personId cp s) ! k)
            = Some (if personId \<in> inside then inside - {personId} else insert personId inside)
          \<and> crossedTracks (checkAreaCrossing now k personId cp s) = crossedTracks s)
   \<and> take (length (emitted (run_ops ops1 (new_LineManager cw ch vw vh))))
        (emitted (run_ops (ops1 @ ops2) (new_LineManager cw ch vw vh)))
       = emitted (run_ops ops1 (new_LineManager cw ch vw vh))"
proof -
  define R where "R = run_ops (ops1 @ ops2) (new_LineManager cw ch vw vh)"
  define b where "b = length (emitted (run_ops ops1 (new_LineManager cw ch vw vh)))"
  have a: "list_all keeps_cooldown ops2 \<and> b \<le> i \<and> i < j \<and> j < length (emitted R)
      \<and> ev_personId (emitted R ! i) = ev_personId (emitted R ! j)
      \<and> ev_lineId (emitted R ! i) = ev_lineId (emitted R ! j)
      \<and> is_line R (ev_lineId (emitted R ! j))
    \<longrightarrow> ev_timestamp (emitted R ! j) - ev_timestamp (emitted R ! i) \<ge> 2000"
  proof
    assume h: "list_all keeps_cooldown ops2 \<and> b \<le> i \<and> i < j \<and> j < length (emitted R)
      \<and> ev_personId (emitted R ! i) = ev_personId (emitted R ! j)
      \<and> ev_lineId (emitted R ! i) = ev_lineId (emitted R ! j)
      \<and> is_line R (ev_lineId (emitted R ! j))"
    then have "dedup_inv b R" unfolding b_def R_def by (intro run_ops_cooldown) simp
    then have "\<forall>i j. b \<le> i \<and> i < j \<and> j < length (emitted R)
              \<and> same_pair (emitted R ! i) (emitted R ! j)
              \<and> is_line R (ev_lineId (emitted R ! j))
            \<longrightarrow> ev_timestamp (emitted R ! j) - ev_timestamp (emitted R ! i) \<ge> 2000"
      by (simp add: dedup_inv_def)
    then show "ev_timestamp (emitted R ! j) - ev_timestamp (emitted R ! i) \<ge> 2000"
      using h unfolding same_pair_def by blast
  qed
  have c: "crossedTracks s (crossingKey personId (b_id line)) = Some lc
        \<and> now - cr_timestamp lc < 2000
      \<longrightarrow> checkLine now line st en personId sp sc s = s"
    by (simp add: checkLine_def Let_def split: option.splits)
  have acc: "lineIntersection sp sc st en = Some p
        \<and> (\<forall>lc'. crossedTracks s (crossingKey personId (b_id line)) = Some lc'
                  \<longrightarrow> 2000 \<le> now - cr_timestamp lc')
      \<longrightarrow> emitted (checkLine now line st en personId sp sc s)
            = emitted s @ [\<lparr>ev_lineId = b_id line, ev_lineName = b_name line,
                             ev_personId = personId,
                             ev_direction = determineLineCrossingDirection sp sc st en,
                             ev_position = p, ev_timestamp = now\<rparr>]
          \<and> lineCrossings (checkLine now line st en personId sp sc s) (b_id line)
            = Some (bump (determineLineCrossingDirection sp sc st en)
                      (counts_or_zero s (b_id line)))
          \<and> crossedTracks (checkLine now line st en personId sp sc s)
                (crossingKey personId (b_id line))
            = Some \<lparr>cr_timestamp = now,
                     cr_direction = determineLineCrossingDirection sp sc st en\<rparr>"
    using line_crossing_counted [of sp sc st en p s personId line now] by blast
  have d: "k < length (lines s) \<and> peopleInside (lines s ! k) = Some inside
        \<and> area_contains (b_shape (lines s ! k)) cp \<noteq> (personId \<in> inside)
      \<longrightarrow> emitted (checkAreaCrossing now k personId cp s)
            = emitted s @ [\<lparr>ev_lineId = b_id (lines s ! k), ev_lineName = b_name (lines s ! k),
                             ev_personId = personId,
                             ev_direction = (if personId \<in> inside then Out else In),
                             ev_position = cp, ev_timestamp = now\<rparr>]
          \<and> lineCrossings (checkAreaCrossing now k personId cp s) (b_id (lines s ! k))
            = Some (bump (if personId \<in> inside then Out else In)
                      (counts_or_zero s (b_id (lines s ! k))))
          \<and> peopleInside (lines (checkAreaCrossing now k personId cp s) ! k)
            = Some (if personId \<in> inside then inside - {personId} else insert personId inside)
          \<and> crossedTracks (checkAreaCrossing now k personId cp s) = crossedTracks s"
    using area_crossing_counted [of k s inside cp personId now] by blast
  show ?thesis
    using a [unfolded R_def b_def] c acc d
      run_ops_events_kept [of ops1 "new_LineManager cw ch vw vh" ops2]
    by (intro conjI)
qed

theorem line_crossing_cooldown_witness:
  "list_all keeps_cooldown after_reset
   \<and> length (emitted (run_ops until_reset (new_LineManager 200 200 200 200))) = 1
   \<and> map (\<lambda>e. (ev_personId e, ev_lineId e, ev_direction e, ev_timestamp e))
        (emitted (run_ops (until_reset @ after_reset) (new_LineManager 200 200 200 200)))
       = [(1, 1, In, 1000), (1, 1, Out, 1600), (1, 1, In, 3600)]
   \<and> is_line (run_ops (until_reset @ after_reset) (new_LineManager 200 200 200 200)) 1
   \<and> ev_timestamp (emitted (run_ops (until_reset @ after_reset) (new_LineManager 200 200 200 200)) ! 2)
       - ev_timestamp (emitted (run_ops (until_reset @ after_reset) (new_LineManager 200 200 200 200)) ! 1)
       \<ge> 2000
   \<and> crossedTracks second_crossing (crossingKey 1 1)
       = Some \<lparr>cr_timestamp = 1600, cr_direction = Out\<rparr>
   \<and> checkLine 2500 (hd (lines second_crossing)) (100, 200) (100, 0) 1 (50, 50) (150, 50)
         second_crossing = second_crossing
   \<and> lineIntersection (50, 50) (150, 50) (100, 200) (100, 0) = Some (100, 50)
   \<and> map (\<lambda>e. (ev_personId e, ev_lineId e, ev_direction e, ev_timestamp e))
        (emitted (checkLine 1000 (hd (lines line_added)) (100, 200) (100, 0) 1 (50, 50) (150, 50)
                    line_added)) = [(1, 1, In, 1000)]
   \<and> lineCrossings (checkLine 1000 (hd (lines line_added)) (100, 200) (100, 0) 1 (50, 50) (150, 50)
                       line_added) 1 = Some \<lparr>c_in = 1, c_out = 0\<rparr>
   \<and> peopleInside (lines square_added ! 0) = Some {}
   \<and> area_contains (b_shape (lines square_added ! 0)) (50, 50) = True
   \<and> map (\<lambda>e. (ev_personId e, ev_lineId e, ev_direction e, ev_timestamp e))
        (emitted (checkAreaCrossing 1000 0 1 (50, 50) square_added)) = [(1, 1, In, 1000)]
   \<and> lineCrossings (checkAreaCrossing 1000 0 1 (50, 50) square_added) 1
       = Some \<lparr>c_in = 1, c_out = 0\<rparr>
   \<and> peopleInside (lines square_entered ! 0) = Some {1}
   \<and> area_contains (b_shape (lines square_entered ! 0)) (150, 150) = False
   \<and> map (\<lambda>e. (ev_personId e, ev_lineId e, ev_direction e, ev_timestamp e))
        (emitted (checkAreaCrossing 1100 0 1 (150, 150) square_entered))
       = [(1, 1, In, 1000), (1, 1, Out, 1100)]
   \<and> lineCrossings (checkAreaCrossing 1100 0 1 (150, 150) square_entered) 1
       = Some \<lparr>c_in = 1, c_out = 1\<rparr>"
proof -
  define R where "R = run_ops (until_reset @ after_reset) (new_LineManager 200 200 200 200)"
  have R: "R = late_return" by (simp add: R_def after_reset_run)
  have keep: "list_all keeps_cooldown after_reset" by (simp add: after_reset_def)
  have base: "length (emitted (run_ops until_reset (new_LineManager 200 200 200 200))) = 1"
    using arg_cong [OF counts_reset_facts(2), where f = length] by (simp add: until_reset_run)
  have ev: "map (\<lambda>e. (ev_personId e, ev_lineId e, ev_direction e, ev_timestamp e)) (emitted R)
      = [(1, 1, In, 1000), (1, 1, Out, 1600), (1, 1, In, 3600)]"
    by (simp add: R late_return_facts)
  have len: "length (emitted R) = 3"
    using arg_cong [OF ev, where f = length] by simp
  have e1: "(ev_personId (emitted R ! 1), ev_lineId (emitted R ! 1), ev_direction (emitted R ! 1),
             ev_timestamp (emitted R ! 1)) = (1, 1, Out, 1600)"
    using arg_cong [OF ev, where f = "\<lambda>xs. xs ! 1"] len by simp
  have e2: "(ev_personId (emitted R ! 2), ev_lineId (emitted R ! 2), ev_direction (emitted R ! 2),
             ev_timestamp (emitted R ! 2)) = (1, 1, In, 3600)"
    using arg_cong [OF ev, where f = "\<lambda>xs. xs ! 2"] len by simp
  have il: "is_line R 1"
  proof -
    have "(1, Line) \<in> set (map (\<lambda>l. (b_id l, b_type l)) (lines R))"
      by (simp add: R late_return_facts)
    then show ?thesis by (auto simp: is_line_def)
  qed
  have rec: "crossedTracks second_crossing (crossingKey 1 (b_id (hd (lines second_crossing))))
      = Some \<lparr>cr_timestamp = 1600, cr_direction = Out\<rparr>"
    by (simp add: second_crossing_facts crossingKey_def string_of_nat_small digit_char_def)
  have hyp: "list_all keeps_cooldown after_reset
      \<and> length (emitted (run_ops until_reset (new_LineManager 200 200 200 200))) \<le> 1
      \<and> (1::nat) < 2 \<and> 2 < length (emitted R)
      \<and> ev_personId (emitted R ! 1) = ev_personId (emitted R ! 2)
      \<and> ev_lineId (emitted R ! 1) = ev_lineId (emitted R ! 2)
      \<and> is_line R (ev_lineId (emitted R ! 2))"
    using keep base e1 e2 len il by simp
  have in0: "(0::nat) < length (lines square_added) \<and> peopleInside (lines square_added ! 0) = Some {}
      \<and> area_contains (b_shape (lines square_added ! 0)) (50, 50) = True"
    by (simp add: square_added_facts area_contains_def)
  note T = line_crossing_cooldown [where i = 1 and j = 2 and ?ops1.0 = until_reset
      and ?ops2.0 = after_reset
      and cw = 200 and ch = 200 and vw = 200 and vh = 200
      and s = second_crossing and personId = 1 and line = "hd (lines second_crossing)"
      and lc = "\<lparr>cr_timestamp = 1600, cr_direction = Out\<rparr>" and now = 2500
      and st = "(100, 200)" and en = "(100, 0)" and sp = "(50, 50)" and sc = "(150, 50)",
      folded R_def]
  have gap: "ev_timestamp (emitted R ! 2) - ev_timestamp (emitted R ! 1) \<ge> 2000"
    using T hyp by blast
  have drop: "checkLine 2500 (hd (lines second_crossing)) (100, 200) (100, 0) 1 (50, 50) (150, 50)
         second_crossing = second_crossing"
    using T rec by simp
  have rec': "crossedTracks second_crossing (crossingKey 1 1)
       = Some \<lparr>cr_timestamp = 1600, cr_direction = Out\<rparr>"
    by (simp add: second_crossing_facts crossingKey_def string_of_nat_small digit_char_def)
  have cut: "lineIntersection (50, 50) (150, 50) (100, 200) (100, 0) = Some (100, 50)"
    by (simp add: lineIntersection_def Let_def)
  have none: "\<forall>lc'. crossedTracks line_added (crossingKey 1 (b_id (hd (lines line_added)))) = Some lc'
                  \<longrightarrow> 2000 \<le> 1000 - cr_timestamp lc'"
    by (simp add: line_added_facts)
  note W = line_crossing_cooldown [where s = line_added and personId = 1
      and line = "hd (lines line_added)" and now = 1000 and p = "(100, 50)"
      and st = "(100, 200)" and en = "(100, 0)" and sp = "(50, 50)" and sc = "(150, 50)",
      THEN conjunct2, THEN conjunct2, THEN conjunct1]
  have counted: "map (\<lambda>e. (ev_personId e, ev_lineId e, ev_direction e, ev_timestamp e))
        (emitted (checkLine 1000 (hd (lines line_added)) (100, 200) (100, 0) 1 (50, 50) (150, 50)
                    line_added)) = [(1, 1, In, 1000)]
      \<and> lineCrossings (checkLine 1000 (hd (lines line_added)) (100, 200) (100, 0) 1 (50, 50) (150, 50)
                       line_added) 1 = Some \<lparr>c_in = 1, c_out = 0\<rparr>"
    using W cut none
    by (simp add: line_added_facts counts_or_zero_def determineLineCrossingDirection_def
        getSide_def vertical_direction_def horizontal_direction_def Let_def)
  note U = line_crossing_cooldown [where s = square_added and k = 0 and inside = "{}"
      and cp = "(50, 50)" and personId = 1 and now = 1000,
      THEN conjunct2, THEN conjunct2, THEN conjunct2, THEN conjunct1]
  have enter: "map (\<lambda>e. (ev_personId e, ev_lineId e, ev_direction e, ev_timestamp e))
        (emitted (checkAreaCrossing 1000 0 1 (50, 50) square_added)) = [(1, 1, In, 1000)]
      \<and> lineCrossings (checkAreaCrossing 1000 0 1 (50, 50) square_added) 1
          = Some \<lparr>c_in = 1, c_out = 0\<rparr>"
    using U in0 by (simp add: square_added_facts counts_or_zero_def zero_counts_def)
  have in1: "(0::nat) < length (lines square_entered) \<and> peopleInside (lines square_entered ! 0) = Some {1}
      \<and> area_contains (b_shape (lines square_entered ! 0)) (150, 150) = False"
    by (simp add: square_entered_facts area_contains_def)
  note V = line_crossing_cooldown [where s = square_entered and k = 0 and inside = "{1}"
      and cp = "(150, 150)" and personId = 1 and now = 1100,
      THEN conjunct2, THEN conjunct2, THEN conjunct2, THEN conjunct1]
  have leave: "map (\<lambda>e. (ev_personId e, ev_lineId e, ev_direction e, ev_timestamp e))
        (emitted (checkAreaCrossing 1100 0 1 (150, 150) square_entered))
         = [(1, 1, In, 1000), (1, 1, Out, 1100)]
      \<and> lineCrossings (checkAreaCrossing 1100 0 1 (150, 150) square_entered) 1
          = Some \<lparr>c_in = 1, c_out = 1\<rparr>"
    using V in1 by (simp add: square_entered_facts counts_or_zero_def)
  show ?thesis
    using keep base ev il gap rec' drop cut counted in0 enter in1 leave unfolding R_def by blast
qed

section \<open>Lemmas about the person tracker\<close>

subsection \<open>Objects keyed by track id\<close>

lemma map_of_obj_put: "map_of (obj_put k v ps) = (map_of ps)(k \<mapsto> v)"
  by (induction ps) (auto simp: fun_upd_twist)

lemma keys_obj_put: "fst ` set (obj_put k v ps) = insert k (fst ` set ps)"
  by (induction ps) auto

lemma set_obj_put_subset: "set (obj_put k v ps) \<subseteq> insert (k, v) (set ps)"
  by (induction ps) auto

lemma js_object_Nil: "js_object []"
  by (simp add: js_object_def)

lemma js_object_obj_put: "js_object ps \<Longrightarrow> js_object (obj_put k v ps)"
proof (induction ps)
  case Nil
  then show ?case by (simp add: js_object_def)
next
  case (Cons p ps)
  have tl: "js_object ps" using Cons.prems by (simp add: js_object_def)
  have hd: "\<forall>q \<in> set ps. fst p < fst q" using Cons.prems by (auto simp: js_object_def)
  show ?case
  proof (cases "k < fst p")
    case True
    then show ?thesis using Cons.prems by (auto simp: js_object_def)
  next
    case False
    show ?thesis
    proof (cases "k = fst p")
      case True
      then show ?thesis using Cons.prems by (auto simp: js_object_def)
    next
      case ne: False
      have lt: "fst p < k" using False ne by simp
      have "\<forall>q \<in> set (obj_put k v ps). fst p < fst q"
        using set_obj_put_subset [of k v ps] hd lt by auto
      then show ?thesis
        using Cons.IH [OF tl] False ne by (auto simp: js_object_def)
    qed
  qed
qed

lemma js_object_distinct: "js_object ps \<Longrightarrow> distinct (map fst ps)"
  by (simp add: js_object_def strict_sorted_iff)

lemma fold_delete:
  "fold (\<lambda>k d. d(k := None)) gone dis k' = (if k' \<in> set gone then None else dis k')"
  by (induction gone arbitrary: dis) auto


lemma disappear_fold:
  assumes "distinct (map fst ts)"
  shows "case fold (disappear_step m) ts (curA, disA, goneA) of (cur, dis, gone) \<Rightarrow>
           (\<forall>k. map_of cur k =
              (case map_of curA k of
                 Some v \<Rightarrow> Some v
               | None \<Rightarrow> if k \<in> fst ` set ts \<and> \<not> int (disappeared_or_zero disA k + 1) > m
                         then map_of ts k else None))
         \<and> (\<forall>k. dis k =
              (if k \<in> fst ` set ts \<and> map_of curA k = None
               then Some (disappeared_or_zero disA k + 1) else disA k))
         \<and> set gone = set goneA \<union>
              {k \<in> fst ` set ts. map_of curA k = None
                   \<and> int (disappeared_or_zero disA k + 1) > m}
         \<and> (js_object curA \<longrightarrow> js_object cur)"
  using assms
proof (induction ts arbitrary: curA disA goneA)
  case Nil
  then show ?case by (auto split: option.splits)
next
  case (Cons kt ts)
  obtain k0 t0 where kt: "kt = (k0, t0)" by (cases kt)
  have d: "distinct (map fst ts)" and nk: "k0 \<notin> fst ` set ts"
    using Cons.prems by (auto simp: kt)
  obtain cur1 dis1 gone1 where st: "disappear_step m kt (curA, disA, goneA) = (cur1, dis1, gone1)"
    by (cases "disappear_step m kt (curA, disA, goneA)")
  have c1: "\<And>k. k \<noteq> k0 \<Longrightarrow> map_of cur1 k = map_of curA k"
    using st by (auto simp: disappear_step_def kt Let_def map_of_obj_put split: if_splits)
  have d1: "\<And>k. k \<noteq> k0 \<Longrightarrow> dis1 k = disA k"
    using st by (auto simp: disappear_step_def kt Let_def split: if_splits)
  have c0: "map_of cur1 k0 =
      (case map_of curA k0 of Some v \<Rightarrow> Some v
       | None \<Rightarrow> if \<not> int (disappeared_or_zero disA k0 + 1) > m then Some t0 else None)"
    using st by (auto simp: disappear_step_def kt Let_def map_of_obj_put split: if_splits option.splits)
  have d0: "dis1 k0 = (if map_of curA k0 = None then Some (disappeared_or_zero disA k0 + 1) else disA k0)"
    using st by (auto simp: disappear_step_def kt Let_def split: if_splits)
  have g1: "set gone1 = set goneA \<union> (if map_of curA k0 = None \<and> int (disappeared_or_zero disA k0 + 1) > m then {k0} else {})"
    using st by (auto simp: disappear_step_def kt Let_def split: if_splits)
  have j1: "js_object curA \<longrightarrow> js_object cur1"
    using st by (auto simp: disappear_step_def kt Let_def js_object_obj_put split: if_splits)
  obtain cur dis gone where r: "fold (disappear_step m) ts (cur1, dis1, gone1) = (cur, dis, gone)"
    by (cases "fold (disappear_step m) ts (cur1, dis1, gone1)")
  note IH = Cons.IH [where curA = cur1 and disA = dis1 and goneA = gone1, OF d, unfolded r, simplified]
  have dz: "\<And>k. k \<noteq> k0 \<Longrightarrow> disappeared_or_zero dis1 k = disappeared_or_zero disA k"
    by (simp add: disappeared_or_zero_def d1)
  have mk0: "map_of ts k0 = None" using nk by (simp add: map_of_eq_None_iff)
  have A: "\<forall>k. map_of cur k =
              (case map_of curA k of
                 Some v \<Rightarrow> Some v
               | None \<Rightarrow> if k \<in> fst ` set (kt # ts) \<and> \<not> int (disappeared_or_zero disA k + 1) > m
                         then map_of (kt # ts) k else None)"
  proof
    fix k
    show "map_of cur k =
              (case map_of curA k of
                 Some v \<Rightarrow> Some v
               | None \<Rightarrow> if k \<in> fst ` set (kt # ts) \<and> \<not> int (disappeared_or_zero disA k + 1) > m
                         then map_of (kt # ts) k else None)"
    proof (cases "k = k0")
      case True
      then show ?thesis using IH c0 nk mk0 by (auto simp: kt split: option.splits)
    next
      case False
      then show ?thesis using IH c1 [OF False] dz [OF False] by (auto simp: kt split: option.splits)
    qed
  qed
  have B: "\<forall>k. dis k =
              (if k \<in> fst ` set (kt # ts) \<and> map_of curA k = None
               then Some (disappeared_or_zero disA k + 1) else disA k)"
  proof
    fix k
    show "dis k =
              (if k \<in> fst ` set (kt # ts) \<and> map_of curA k = None
               then Some (disappeared_or_zero disA k + 1) else disA k)"
    proof (cases "k = k0")
      case True
      then show ?thesis using IH d0 nk by (auto simp: kt)
    next
      case False
      then show ?thesis using IH c1 [OF False] d1 [OF False] dz [OF False] by (auto simp: kt)
    qed
  qed
  have C: "set gone = set goneA \<union>
              {k \<in> fst ` set (kt # ts). map_of curA k = None
                   \<and> int (disappeared_or_zero disA k + 1) > m}"
  proof -
    have "set gone = set gone1 \<union> {k \<in> fst ` set ts. map_of cur1 k = None \<and> int (disappeared_or_zero dis1 k + 1) > m}"
      using IH by simp
    also have "{k \<in> fst ` set ts. map_of cur1 k = None \<and> int (disappeared_or_zero dis1 k + 1) > m}
        = {k \<in> fst ` set ts. map_of curA k = None \<and> int (disappeared_or_zero disA k + 1) > m}"
      using nk c1 dz by (metis (no_types, lifting))
    finally show ?thesis using g1 by (auto simp: kt)
  qed
  have D: "js_object curA \<longrightarrow> js_object cur" using IH j1 by simp
  show ?case using A B C D by (simp add: st r)
qed

subsection \<open>The loops of one frame\<close>

lemma handleDisappearances_char:
  assumes "distinct (map fst (tracks s))"
  shows "map_of (tracks (snd (handleDisappearances curA upd s))) k =
           (case map_of curA k of
              Some v \<Rightarrow> Some v
            | None \<Rightarrow> if k \<in> fst ` set (tracks s)
                          \<and> \<not> int (disappeared_or_zero (disappeared s) k + 1) > maxDisappearedFrames s
                      then map_of (tracks s) k else None)"
    and "disappeared (snd (handleDisappearances curA upd s)) k =
           (if k \<in> fst ` set (tracks s) \<and> map_of curA k = None
            then (if int (disappeared_or_zero (disappeared s) k + 1) > maxDisappearedFrames s
                  then None else Some (disappeared_or_zero (disappeared s) k + 1))
            else disappeared s k)"
    and "set (r_disappeared (fst (handleDisappearances curA upd s))) =
           {k \<in> fst ` set (tracks s). map_of curA k = None
               \<and> int (disappeared_or_zero (disappeared s) k + 1) > maxDisappearedFrames s}"
    and "r_updated (fst (handleDisappearances curA upd s)) = upd"
    and "r_tracks (fst (handleDisappearances curA upd s)) = tracks (snd (handleDisappearances curA upd s))"
    and "js_object curA \<Longrightarrow> js_object (tracks (snd (handleDisappearances curA upd s)))"
    and "nextTrackId (snd (handleDisappearances curA upd s)) = nextTrackId s"
    and "historyLength (snd (handleDisappearances curA upd s)) = historyLength s"
    and "maxDisappearedFrames (snd (handleDisappearances curA upd s)) = maxDisappearedFrames s"
    and "isModelLoaded (snd (handleDisappearances curA upd s)) = isModelLoaded s"
    and "confidenceThreshold (snd (handleDisappearances curA upd s)) = confidenceThreshold s"
proof -
  obtain cur dis gone where r:
    "fold (disappear_step (maxDisappearedFrames s)) (tracks s) (curA, disappeared s, []) = (cur, dis, gone)"
    by (cases "fold (disappear_step (maxDisappearedFrames s)) (tracks s) (curA, disappeared s, [])")
  note F = disappear_fold [OF assms, where m = "maxDisappearedFrames s" and curA = curA
      and disA = "disappeared s" and goneA = "[]", unfolded r, simplified]
  have hd: "handleDisappearances curA upd s =
      (\<lparr>r_tracks = cur, r_updated = upd, r_disappeared = gone\<rparr>,
       s\<lparr>tracks := cur, disappeared := fold (\<lambda>trackId d. d(trackId := None)) gone dis\<rparr>)"
    by (simp add: handleDisappearances_def r)
  show "map_of (tracks (snd (handleDisappearances curA upd s))) k =
           (case map_of curA k of
              Some v \<Rightarrow> Some v
            | None \<Rightarrow> if k \<in> fst ` set (tracks s)
                          \<and> \<not> int (disappeared_or_zero (disappeared s) k + 1) > maxDisappearedFrames s
                      then map_of (tracks s) k else None)"
    using F by (simp add: hd)
  show "disappeared (snd (handleDisappearances curA upd s)) k =
           (if k \<in> fst ` set (tracks s) \<and> map_of curA k = None
            then (if int (disappeared_or_zero (disappeared s) k + 1) > maxDisappearedFrames s
                  then None else Some (disappeared_or_zero (disappeared s) k + 1))
            else disappeared s k)"
    using F by (auto simp: hd fold_delete)
  show "set (r_disappeared (fst (handleDisappearances curA upd s))) =
           {k \<in> fst ` set (tracks s). map_of curA k = None
               \<and> int (disappeared_or_zero (disappeared s) k + 1) > maxDisappearedFrames s}"
    using F by (simp add: hd)
  show "r_updated (fst (handleDisappearances curA upd s)) = upd" by (simp add: hd)
  show "r_tracks (fst (handleDisappearances curA upd s)) = tracks (snd (handleDisappearances curA upd s))"
    by (simp add: hd)
  show "js_object curA \<Longrightarrow> js_object (tracks (snd (handleDisappearances curA upd s)))"
    using F by (simp add: hd)
  show "nextTrackId (snd (handleDisappearances curA upd s)) = nextTrackId s" by (simp add: hd)
  show "historyLength (snd (handleDisappearances curA upd s)) = historyLength s" by (simp add: hd)
  show "maxDisappearedFrames (snd (handleDisappearances curA upd s)) = maxDisappearedFrames s" by (simp add: hd)
  show "isModelLoaded (snd (handleDisappearances curA upd s)) = isModelLoaded s" by (simp add: hd)
  show "confidenceThreshold (snd (handleDisappearances curA upd s)) = confidenceThreshold s" by (simp add: hd)
qed

lemma spawn_fold:
  "case fold (spawn_step now) dets (curA, updA, disA, nA) of (cur, upd, dis, n) \<Rightarrow>
     n = nA + length dets
   \<and> upd = updA @ [nA..<nA + length dets]
   \<and> (\<forall>k. map_of cur k =
         (if nA \<le> k \<and> k < nA + length dets then Some (initializeTrack k now (dets ! (k - nA)))
          else map_of curA k))
   \<and> (\<forall>k. dis k = (if nA \<le> k \<and> k < nA + length dets then Some 0 else disA k))
   \<and> (js_object curA \<longrightarrow> js_object cur)
   \<and> set cur \<subseteq> set curA \<union> {(k, initializeTrack k now d) | k d. d \<in> set dets}"
proof (induction dets arbitrary: curA updA disA nA)
  case Nil
  then show ?case by auto
next
  case (Cons d dets)
  obtain cur upd dis n where r:
    "fold (spawn_step now) dets (obj_put nA (initializeTrack nA now d) curA, updA @ [nA], disA(nA \<mapsto> 0), nA + 1)
      = (cur, upd, dis, n)"
    by (cases "fold (spawn_step now) dets (obj_put nA (initializeTrack nA now d) curA, updA @ [nA], disA(nA \<mapsto> 0), nA + 1)")
  note IH = Cons.IH [where curA = "obj_put nA (initializeTrack nA now d) curA"
      and updA = "updA @ [nA]" and disA = "disA(nA \<mapsto> 0)" and nA = "nA + 1",
      unfolded r prod.case]
  have N: "n = nA + length (d # dets)" using IH by simp
  have "nA < nA + length (d # dets)" by simp
  then have up: "[nA..<nA + length (d # dets)] = nA # [Suc nA..<nA + length (d # dets)]"
    by (rule upt_conv_Cons)
  have U: "upd = updA @ [nA..<nA + length (d # dets)]"
    unfolding up using IH by simp
  have A: "\<forall>k. map_of cur k =
         (if nA \<le> k \<and> k < nA + length (d # dets) then Some (initializeTrack k now ((d # dets) ! (k - nA)))
          else map_of curA k)"
  proof
    fix k
    have m: "map_of cur k =
         (if nA + 1 \<le> k \<and> k < nA + 1 + length dets then Some (initializeTrack k now (dets ! (k - (nA + 1))))
          else map_of (obj_put nA (initializeTrack nA now d) curA) k)"
      using IH by blast
    show "map_of cur k =
         (if nA \<le> k \<and> k < nA + length (d # dets) then Some (initializeTrack k now ((d # dets) ! (k - nA)))
          else map_of curA k)"
    proof (cases "k = nA")
      case True
      then show ?thesis unfolding m by (simp add: map_of_obj_put)
    next
      case False
      then show ?thesis unfolding m by (auto simp: map_of_obj_put nth_Cons')
    qed
  qed
  have D: "\<forall>k. dis k = (if nA \<le> k \<and> k < nA + length (d # dets) then Some 0 else disA k)"
  proof
    fix k
    have m: "dis k = (if nA + 1 \<le> k \<and> k < nA + 1 + length dets then Some 0 else (disA(nA \<mapsto> 0)) k)"
      using IH by blast
    show "dis k = (if nA \<le> k \<and> k < nA + length (d # dets) then Some 0 else disA k)"
      unfolding m by auto
  qed
  have J: "js_object curA \<longrightarrow> js_object cur"
  proof
    assume "js_object curA"
    then have "js_object (obj_put nA (initializeTrack nA now d) curA)"
      by (rule js_object_obj_put)
    then show "js_object cur" using IH by simp
  qed
  have S: "set cur \<subseteq> set curA \<union> {(k, initializeTrack k now d') | k d'. d' \<in> set (d # dets)}"
  proof -
    have "set cur \<subseteq> set (obj_put nA (initializeTrack nA now d) curA)
            \<union> {(k, initializeTrack k now d') | k d'. d' \<in> set dets}"
      using IH by blast
    moreover have "set (obj_put nA (initializeTrack nA now d) curA)
        \<subseteq> insert (nA, initializeTrack nA now d) (set curA)"
      by (rule set_obj_put_subset)
    moreover have "(nA, initializeTrack nA now d)
        \<in> {(k, initializeTrack k now d') | k d'. d' \<in> set (d # dets)}"
      by auto
    moreover have "{(k, initializeTrack k now d') | k d'. d' \<in> set dets}
        \<subseteq> {(k, initializeTrack k now d') | k d'. d' \<in> set (d # dets)}"
      by auto
    ultimately show ?thesis by blast
  qed
  have st: "fold (spawn_step now) (d # dets) (curA, updA, disA, nA) = (cur, upd, dis, n)"
    using r by (simp add: spawn_step_def)
  show ?case
    unfolding st prod.case using N U A D J S by blast
qed

lemma best_detection_cases:
  "best_detection md ious = (- 1, - 1)
   \<or> (\<exists>j < length ious. best_detection md ious = (ious ! j, int j) \<and> int j \<notin> md)"
  unfolding best_detection_def
proof (rule fold_invariant [where P = "\<lambda>st. st = (- 1, - 1)
          \<or> (\<exists>j < length ious. st = (ious ! j, int j) \<and> int j \<notin> md)"])
  show "(- 1, - 1) = (- 1 :: real, - 1 :: int)
      \<or> (\<exists>j<length ious. (- 1, - 1) = (ious ! j, int j) \<and> int j \<notin> md)"
    by simp
next
  fix x st
  assume x: "x \<in> set [0..<length ious]"
    and st: "st = (- 1, - 1) \<or> (\<exists>j<length ious. st = (ious ! j, int j) \<and> int j \<notin> md)"
  show "best_step md ious x st = (- 1, - 1)
      \<or> (\<exists>j<length ious. best_step md ious x st = (ious ! j, int j) \<and> int j \<notin> md)"
  proof (cases "int x \<notin> md \<and> ious ! x > fst st")
    case True
    then have "best_step md ious x st = (ious ! x, int x)" by (simp add: best_step_def)
    then show ?thesis using x True by auto
  next
    case False
    then have "best_step md ious x st = st" by (auto simp: best_step_def)
    then show ?thesis using st by simp
  qed
qed

lemma match_fold_inv:
  assumes "distinct trackIds" "n \<le> length trackIds"
  shows "case fold (match_step trackIds iouM) [0..<n] ([], {}) of (matched, md) \<Rightarrow>
           md = snd ` set matched
         \<and> distinct (map snd matched)
         \<and> distinct (map fst matched)
         \<and> fst ` set matched \<subseteq> set (take n trackIds)
         \<and> (\<forall>m \<in> set matched. \<exists>i < n. fst m = trackIds ! i \<and> 0 \<le> snd m
                \<and> nat (snd m) < length (iouM ! i) \<and> iouM ! i ! nat (snd m) \<ge> minIoU)"
  using assms(2)
proof (induction n)
  case 0
  then show ?case by simp
next
  case (Suc n)
  obtain matched md where r: "fold (match_step trackIds iouM) [0..<n] ([], {}) = (matched, md)"
    by (cases "fold (match_step trackIds iouM) [0..<n] ([], {})")
  have nl: "n < length trackIds" using Suc.prems by simp
  have IH: "md = snd ` set matched" "distinct (map snd matched)" "distinct (map fst matched)"
    "fst ` set matched \<subseteq> set (take n trackIds)"
    "\<forall>m \<in> set matched. \<exists>i < n. fst m = trackIds ! i \<and> 0 \<le> snd m
                \<and> nat (snd m) < length (iouM ! i) \<and> iouM ! i ! nat (snd m) \<ge> minIoU"
    using Suc.IH nl by (simp_all add: r)
  have tk: "take (Suc n) trackIds = take n trackIds @ [trackIds ! n]"
    using nl by (rule take_Suc_conv_app_nth)
  have fresh: "trackIds ! n \<notin> set (take n trackIds)"
  proof -
    have "distinct (take (Suc n) trackIds)" using assms(1) by (rule distinct_take)
    then show ?thesis unfolding tk by simp
  qed
  have step: "fold (match_step trackIds iouM) [0..<Suc n] ([], {}) = match_step trackIds iouM n (matched, md)"
    by (simp add: r)
  show ?case
  proof (cases "fst (best_detection md (iouM ! n)) \<ge> minIoU")
    case False
    then have ms: "match_step trackIds iouM n (matched, md) = (matched, md)"
      by (simp add: match_step_def Let_def)
    have "\<forall>m \<in> set matched. \<exists>i < Suc n. fst m = trackIds ! i \<and> 0 \<le> snd m
                \<and> nat (snd m) < length (iouM ! i) \<and> iouM ! i ! nat (snd m) \<ge> minIoU"
      using IH(5) less_Suc_eq by blast
    then show ?thesis unfolding step ms prod.case using IH tk by auto
  next
    case True
    have "minIoU > - 1" by (simp add: minIoU_def)
    then have "best_detection md (iouM ! n) \<noteq> (- 1, - 1)" using True by auto
    then obtain j where j: "j < length (iouM ! n)"
        "best_detection md (iouM ! n) = (iouM ! n ! j, int j)" "int j \<notin> md"
      using best_detection_cases [of md "iouM ! n"] by blast
    have ms: "match_step trackIds iouM n (matched, md)
        = (matched @ [(trackIds ! n, int j)], insert (int j) md)"
      using True by (simp add: match_step_def Let_def j)
    have a: "insert (int j) md = snd ` set (matched @ [(trackIds ! n, int j)])"
      using IH(1) by auto
    have b: "distinct (map snd (matched @ [(trackIds ! n, int j)]))"
      using IH(1,2) j(3) by auto
    have c: "distinct (map fst (matched @ [(trackIds ! n, int j)]))"
      using IH(3,4) fresh by auto
    have d: "fst ` set (matched @ [(trackIds ! n, int j)]) \<subseteq> set (take (Suc n) trackIds)"
      using IH(4) tk by auto
    have e: "\<forall>m \<in> set (matched @ [(trackIds ! n, int j)]). \<exists>i < Suc n. fst m = trackIds ! i \<and> 0 \<le> snd m
                \<and> nat (snd m) < length (iouM ! i) \<and> iouM ! i ! nat (snd m) \<ge> minIoU"
    proof
      fix m assume "m \<in> set (matched @ [(trackIds ! n, int j)])"
      then consider "m \<in> set matched" | "m = (trackIds ! n, int j)" by auto
      then show "\<exists>i < Suc n. fst m = trackIds ! i \<and> 0 \<le> snd m
                \<and> nat (snd m) < length (iouM ! i) \<and> iouM ! i ! nat (snd m) \<ge> minIoU"
      proof cases
        case 1
        then show ?thesis using IH(5) less_Suc_eq by blast
      next
        case 2
        have "iouM ! n ! j \<ge> minIoU" using True j(2) by simp
        then show ?thesis using 2 j(1) by auto
      qed
    qed
    show ?thesis unfolding step ms prod.case using a b c d e by blast
  qed
qed

lemma matching_props:
  assumes js: "js_object (tracks s)"
  shows "distinct (map snd (fst (matchDetectionsToTracks s (calculateIoUMatrix s ds) ds)))"
    and "distinct (map fst (fst (matchDetectionsToTracks s (calculateIoUMatrix s ds) ds)))"
    and "\<forall>m \<in> set (fst (matchDetectionsToTracks s (calculateIoUMatrix s ds) ds)).
           \<exists>trk. map_of (tracks s) (fst m) = Some trk \<and> 0 \<le> snd m \<and> nat (snd m) < length ds
             \<and> calculateIoU (t_bbox trk) (d_bbox (ds ! nat (snd m))) \<ge> minIoU"
    and "snd (matchDetectionsToTracks s (calculateIoUMatrix s ds) ds)
           = filter (\<lambda>i. int i \<notin> snd ` set (fst (matchDetectionsToTracks s (calculateIoUMatrix s ds) ds)))
               [0..<length ds]"
proof -
  define iouM where "iouM = calculateIoUMatrix s ds"
  define trackIds where "trackIds = map fst (tracks s)"
  have len: "length iouM = length (tracks s)" by (simp add: iouM_def calculateIoUMatrix_def)
  have dist: "distinct trackIds" unfolding trackIds_def using js by (rule js_object_distinct)
  obtain matched md where r:
    "fold (match_step trackIds iouM) [0..<length (tracks s)] ([], {}) = (matched, md)"
    by (cases "fold (match_step trackIds iouM) [0..<length (tracks s)] ([], {})")
  have "length (tracks s) \<le> length trackIds" by (simp add: trackIds_def)
  note inv = match_fold_inv [OF dist this, of iouM, unfolded r prod.case]
  have mu: "matchDetectionsToTracks s iouM ds =
      (if length (tracks s) = 0 then ([], [0..<length ds])
       else (matched, filter (\<lambda>i. int i \<notin> md) [0..<length ds]))"
    by (simp add: matchDetectionsToTracks_def len Let_def r trackIds_def [symmetric])
  have row: "\<And>i. i < length (tracks s) \<Longrightarrow>
      iouM ! i = map (\<lambda>det. calculateIoU (t_bbox (snd (tracks s ! i))) (d_bbox det)) ds"
    by (simp add: iouM_def calculateIoUMatrix_def)
  have look: "\<And>i. i < length (tracks s) \<Longrightarrow>
      map_of (tracks s) (trackIds ! i) = Some (snd (tracks s ! i))"
  proof -
    fix i assume i: "i < length (tracks s)"
    have "(fst (tracks s ! i), snd (tracks s ! i)) \<in> set (tracks s)" using i by simp
    moreover have "distinct (map fst (tracks s))" using dist by (simp add: trackIds_def)
    ultimately have "map_of (tracks s) (fst (tracks s ! i)) = Some (snd (tracks s ! i))"
      by (rule map_of_is_SomeI [rotated])
    then show "map_of (tracks s) (trackIds ! i) = Some (snd (tracks s ! i))"
      using i by (simp add: trackIds_def)
  qed
  show "distinct (map snd (fst (matchDetectionsToTracks s (calculateIoUMatrix s ds) ds)))"
    using inv by (simp add: iouM_def [symmetric] mu)
  show "distinct (map fst (fst (matchDetectionsToTracks s (calculateIoUMatrix s ds) ds)))"
    using inv by (simp add: iouM_def [symmetric] mu)
  show "\<forall>m \<in> set (fst (matchDetectionsToTracks s (calculateIoUMatrix s ds) ds)).
           \<exists>trk. map_of (tracks s) (fst m) = Some trk \<and> 0 \<le> snd m \<and> nat (snd m) < length ds
             \<and> calculateIoU (t_bbox trk) (d_bbox (ds ! nat (snd m))) \<ge> minIoU"
  proof
    fix m assume "m \<in> set (fst (matchDetectionsToTracks s (calculateIoUMatrix s ds) ds))"
    then have m: "m \<in> set matched" and ne: "length (tracks s) \<noteq> 0"
      by (auto simp: iouM_def [symmetric] mu split: if_splits)
    then obtain i where i: "i < length (tracks s)" "fst m = trackIds ! i" "0 \<le> snd m"
        "nat (snd m) < length (iouM ! i)" "iouM ! i ! nat (snd m) \<ge> minIoU"
      using inv by blast
    have l: "nat (snd m) < length ds" using i(4) row [OF i(1)] by simp
    have "iouM ! i ! nat (snd m)
        = calculateIoU (t_bbox (snd (tracks s ! i))) (d_bbox (ds ! nat (snd m)))"
      using l by (simp add: row [OF i(1)])
    then show "\<exists>trk. map_of (tracks s) (fst m) = Some trk \<and> 0 \<le> snd m \<and> nat (snd m) < length ds
             \<and> calculateIoU (t_bbox trk) (d_bbox (ds ! nat (snd m))) \<ge> minIoU"
      using look [OF i(1)] i l by auto
  qed
  show "snd (matchDetectionsToTracks s (calculateIoUMatrix s ds) ds)
           = filter (\<lambda>i. int i \<notin> snd ` set (fst (matchDetectionsToTracks s (calculateIoUMatrix s ds) ds)))
               [0..<length ds]"
    using inv by (simp add: iouM_def [symmetric] mu)
qed

lemma first_fold_spawn:
  "fold (first_step now) dets (cur, upd, n)
     = (case fold (spawn_step now) dets (cur, upd, dis, n) of (c, u, d, n') \<Rightarrow> (c, u, n'))"
proof (induction dets arbitrary: cur upd dis n)
  case Nil
  then show ?case by simp
next
  case (Cons d dets)
  have f: "first_step now d (cur, upd, n)
      = (obj_put n (initializeTrack n now d) cur, upd @ [n], n + 1)"
    by (simp add: first_step_def)
  have g: "spawn_step now d (cur, upd, dis, n)
      = (obj_put n (initializeTrack n now d) cur, upd @ [n], dis(n \<mapsto> 0), n + 1)"
    by (simp add: spawn_step_def)
  have "fold (first_step now) (d # dets) (cur, upd, n)
      = fold (first_step now) dets (obj_put n (initializeTrack n now d) cur, upd @ [n], n + 1)"
    by (simp only: fold_simps f)
  also have "\<dots> = (case fold (spawn_step now) dets
        (obj_put n (initializeTrack n now d) cur, upd @ [n], dis(n \<mapsto> 0), n + 1) of
      (c, u, d, n') \<Rightarrow> (c, u, n'))"
    by (rule Cons.IH)
  also have "\<dots> = (case fold (spawn_step now) (d # dets) (cur, upd, dis, n) of
      (c, u, d, n') \<Rightarrow> (c, u, n'))"
    by (simp only: fold_simps g)
  finally show ?case .
qed

lemma matched_fold:
  assumes "\<forall>m \<in> set ms. map_of (tracks s) (fst m) \<noteq> None"
  shows "case fold (matched_step s now ds) ms (curA, updA, disA) of (cur, upd, dis) \<Rightarrow>
           upd = updA @ map fst ms
         \<and> fst ` set cur = fst ` set curA \<union> fst ` set ms
         \<and> (\<forall>k. dis k = (if k \<in> fst ` set ms then Some 0 else disA k))
         \<and> (js_object curA \<longrightarrow> js_object cur)
         \<and> set cur \<subseteq> set curA \<union>
              {(fst m, updateTrack (historyLength s) now trk (ds ! nat (snd m))) | m trk.
                 m \<in> set ms \<and> map_of (tracks s) (fst m) = Some trk}"
  using assms
proof (induction ms arbitrary: curA updA disA)
  case Nil
  then show ?case by simp
next
  case (Cons m ms)
  obtain trk where trk: "map_of (tracks s) (fst m) = Some trk" using Cons.prems by auto
  define c1 where "c1 = obj_put (fst m) (updateTrack (historyLength s) now trk (ds ! nat (snd m))) curA"
  have st: "matched_step s now ds m (curA, updA, disA) = (c1, updA @ [fst m], disA(fst m \<mapsto> 0))"
    by (simp add: matched_step_def trk c1_def)
  obtain cur upd dis where r:
    "fold (matched_step s now ds) ms (c1, updA @ [fst m], disA(fst m \<mapsto> 0)) = (cur, upd, dis)"
    by (cases "fold (matched_step s now ds) ms (c1, updA @ [fst m], disA(fst m \<mapsto> 0))")
  have pre: "\<forall>m \<in> set ms. map_of (tracks s) (fst m) \<noteq> None" using Cons.prems by simp
  note IH = Cons.IH [OF pre, where curA = c1 and updA = "updA @ [fst m]"
      and disA = "disA(fst m \<mapsto> 0)", unfolded r prod.case]
  have U: "upd = updA @ map fst (m # ms)" using IH by simp
  have K: "fst ` set cur = fst ` set curA \<union> fst ` set (m # ms)"
    using IH by (simp add: c1_def keys_obj_put)
  have D: "\<forall>k. dis k = (if k \<in> fst ` set (m # ms) then Some 0 else disA k)"
  proof
    fix k
    have "dis k = (if k \<in> fst ` set ms then Some 0 else (disA(fst m \<mapsto> 0)) k)"
      using IH by blast
    then show "dis k = (if k \<in> fst ` set (m # ms) then Some 0 else disA k)" by auto
  qed
  have J: "js_object curA \<longrightarrow> js_object cur"
  proof
    assume "js_object curA"
    then have "js_object c1" unfolding c1_def by (rule js_object_obj_put)
    then show "js_object cur" using IH by simp
  qed
  have S: "set cur \<subseteq> set curA \<union>
              {(fst m', updateTrack (historyLength s) now trk' (ds ! nat (snd m'))) | m' trk'.
                 m' \<in> set (m # ms) \<and> map_of (tracks s) (fst m') = Some trk'}"
  proof -
    have "set cur \<subseteq> set c1 \<union>
              {(fst m', updateTrack (historyLength s) now trk' (ds ! nat (snd m'))) | m' trk'.
                 m' \<in> set ms \<and> map_of (tracks s) (fst m') = Some trk'}"
      using IH by blast
    moreover have "set c1 \<subseteq> insert (fst m, updateTrack (historyLength s) now trk (ds ! nat (snd m))) (set curA)"
      unfolding c1_def by (rule set_obj_put_subset)
    moreover have "(fst m, updateTrack (historyLength s) now trk (ds ! nat (snd m)))
        \<in> {(fst m', updateTrack (historyLength s) now trk' (ds ! nat (snd m'))) | m' trk'.
                 m' \<in> set (m # ms) \<and> map_of (tracks s) (fst m') = Some trk'}"
      using trk by auto
    moreover have "{(fst m', updateTrack (historyLength s) now trk' (ds ! nat (snd m'))) | m' trk'.
                 m' \<in> set ms \<and> map_of (tracks s) (fst m') = Some trk'}
        \<subseteq> {(fst m', updateTrack (historyLength s) now trk' (ds ! nat (snd m'))) | m' trk'.
                 m' \<in> set (m # ms) \<and> map_of (tracks s) (fst m') = Some trk'}"
      by auto
    ultimately show ?thesis by blast
  qed
  have f: "fold (matched_step s now ds) (m # ms) (curA, updA, disA) = (cur, upd, dis)"
    using r by (simp add: st)
  show ?case unfolding f prod.case using U K D J S by blast
qed

lemma updateTracks_empty: "updateTracks now [] s = handleDisappearances [] [] s"
  by (simp add: updateTracks_def)

lemma updateTracks_first:
  assumes "ds \<noteq> []" "tracks s = []"
  obtains cur where
    "updateTracks now ds s =
       (\<lparr>r_tracks = cur, r_updated = [nextTrackId s..<nextTrackId s + length ds], r_disappeared = []\<rparr>,
        s\<lparr>tracks := cur, nextTrackId := nextTrackId s + length ds\<rparr>)"
    "\<forall>k. map_of cur k =
        (if nextTrackId s \<le> k \<and> k < nextTrackId s + length ds
         then Some (initializeTrack k now (ds ! (k - nextTrackId s))) else None)"
    "js_object cur"
    "set cur \<subseteq> {(k, initializeTrack k now d) | k d. d \<in> set ds}"
proof -
  obtain cur upd dis n where r:
    "fold (spawn_step now) ds ([], [], Map.empty, nextTrackId s) = (cur, upd, dis, n)"
    by (cases "fold (spawn_step now) ds ([], [], Map.empty, nextTrackId s)")
  note F = spawn_fold [where now = now and dets = ds and curA = "[]" and updA = "[]"
      and disA = Map.empty and nA = "nextTrackId s", unfolded r prod.case]
  have f: "fold (first_step now) ds ([], [], nextTrackId s) = (cur, upd, n)"
    by (simp add: first_fold_spawn [where dis = Map.empty] r)
  have 1: "updateTracks now ds s =
       (\<lparr>r_tracks = cur, r_updated = [nextTrackId s..<nextTrackId s + length ds], r_disappeared = []\<rparr>,
        s\<lparr>tracks := cur, nextTrackId := nextTrackId s + length ds\<rparr>)"
    using assms F by (simp add: updateTracks_def f)
  have 2: "\<forall>k. map_of cur k =
        (if nextTrackId s \<le> k \<and> k < nextTrackId s + length ds
         then Some (initializeTrack k now (ds ! (k - nextTrackId s))) else None)"
    using F by simp
  have 3: "js_object cur" using F by (simp add: js_object_Nil)
  have 4: "set cur \<subseteq> {(k, initializeTrack k now d) | k d. d \<in> set ds}" using F by simp
  show thesis by (rule that [OF 1 2 3 4])
qed

lemma updateTracks_general:
  assumes "ds \<noteq> []" "tracks s \<noteq> []" "js_object (tracks s)"
    and mu: "matchDetectionsToTracks s (calculateIoUMatrix s ds) ds = (matched, unmatched)"
  obtains cur2 dis2 where
    "updateTracks now ds s =
       handleDisappearances cur2 (map fst matched @ [nextTrackId s..<nextTrackId s + length unmatched])
         (s\<lparr>disappeared := dis2, nextTrackId := nextTrackId s + length unmatched\<rparr>)"
    "\<forall>k. nextTrackId s \<le> k \<and> k < nextTrackId s + length unmatched
         \<longrightarrow> map_of cur2 k = Some (initializeTrack k now (ds ! (unmatched ! (k - nextTrackId s))))"
    "fst ` set cur2 = fst ` set matched \<union> {nextTrackId s..<nextTrackId s + length unmatched}"
    "\<forall>k. dis2 k = (if k \<in> fst ` set matched \<union> {nextTrackId s..<nextTrackId s + length unmatched}
                     then Some 0 else disappeared s k)"
    "js_object cur2"
    "set cur2 \<subseteq>
       {(fst m, updateTrack (historyLength s) now trk (ds ! nat (snd m))) | m trk.
           m \<in> set matched \<and> map_of (tracks s) (fst m) = Some trk}
       \<union> {(k, initializeTrack k now d) | k d. d \<in> set ds}"
proof -
  have mp: "\<forall>m \<in> set matched. map_of (tracks s) (fst m) \<noteq> None"
    using matching_props(3) [OF assms(3), of ds] mu by auto
  have un: "set unmatched \<subseteq> {0..<length ds}"
    using matching_props(4) [OF assms(3), of ds] mu by auto
  obtain cur1 upd1 dis1 where r1:
    "fold (matched_step s now ds) matched ([], [], disappeared s) = (cur1, upd1, dis1)"
    by (cases "fold (matched_step s now ds) matched ([], [], disappeared s)")
  note M = matched_fold [OF mp, where now = now and ds = ds and curA = "[]" and updA = "[]"
      and disA = "disappeared s", unfolded r1 prod.case]
  define dets where "dets = map (\<lambda>i. ds ! i) unmatched"
  obtain cur2 upd2 dis2 n where r2:
    "fold (spawn_step now) dets (cur1, upd1, dis1, nextTrackId s) = (cur2, upd2, dis2, n)"
    by (cases "fold (spawn_step now) dets (cur1, upd1, dis1, nextTrackId s)")
  note S = spawn_fold [where now = now and dets = dets and curA = cur1 and updA = upd1
      and disA = dis1 and nA = "nextTrackId s", unfolded r2 prod.case]
  have fm: "fold (\<lambda>detectionIdx. spawn_step now (ds ! detectionIdx)) unmatched (cur1, upd1, dis1, nextTrackId s)
      = (cur2, upd2, dis2, n)"
    using r2 by (simp add: dets_def fold_map comp_def)
  have ld: "length dets = length unmatched" by (simp add: dets_def)
  have 1: "updateTracks now ds s =
       handleDisappearances cur2 (map fst matched @ [nextTrackId s..<nextTrackId s + length unmatched])
         (s\<lparr>disappeared := dis2, nextTrackId := nextTrackId s + length unmatched\<rparr>)"
  proof -
    have N: "n = nextTrackId s + length unmatched" using S by (simp add: ld)
    have U: "upd2 = map fst matched @ [nextTrackId s..<nextTrackId s + length unmatched]"
      using M S by (simp add: ld)
    show ?thesis
      using assms(1,2) by (simp add: updateTracks_def Let_def mu r1 fm N U)
  qed
  have 2: "\<forall>k. nextTrackId s \<le> k \<and> k < nextTrackId s + length unmatched
         \<longrightarrow> map_of cur2 k = Some (initializeTrack k now (ds ! (unmatched ! (k - nextTrackId s))))"
    using S by (auto simp: ld dets_def)
  have k1: "fst ` set cur1 = fst ` set matched" using M by simp
  have 3: "fst ` set cur2 = fst ` set matched \<union> {nextTrackId s..<nextTrackId s + length unmatched}"
  proof (rule set_eqI)
    fix k
    have m: "map_of cur2 k =
         (if nextTrackId s \<le> k \<and> k < nextTrackId s + length dets
          then Some (initializeTrack k now (dets ! (k - nextTrackId s)))
          else map_of cur1 k)"
      using S by blast
    have "k \<in> fst ` set cur2 \<longleftrightarrow> map_of cur2 k \<noteq> None"
      by (simp add: map_of_eq_None_iff)
    also have "\<dots> \<longleftrightarrow> (nextTrackId s \<le> k \<and> k < nextTrackId s + length unmatched)
        \<or> map_of cur1 k \<noteq> None"
      by (cases "nextTrackId s \<le> k \<and> k < nextTrackId s + length unmatched")
        (simp_all only: m ld if_True if_False option.distinct not_False_eq_True simp_thms)
    also have "\<dots> \<longleftrightarrow> (nextTrackId s \<le> k \<and> k < nextTrackId s + length unmatched)
        \<or> k \<in> fst ` set cur1"
      by (simp add: map_of_eq_None_iff)
    finally show "k \<in> fst ` set cur2 \<longleftrightarrow>
        k \<in> fst ` set matched \<union> {nextTrackId s..<nextTrackId s + length unmatched}"
      unfolding k1 by auto
  qed
  have 4: "\<forall>k. dis2 k = (if k \<in> fst ` set matched \<union> {nextTrackId s..<nextTrackId s + length unmatched}
                     then Some 0 else disappeared s k)"
  proof
    fix k
    have a: "dis2 k = (if nextTrackId s \<le> k \<and> k < nextTrackId s + length dets then Some 0 else dis1 k)"
      using S by blast
    have b: "dis1 k = (if k \<in> fst ` set matched then Some 0 else disappeared s k)"
      using M by blast
    show "dis2 k = (if k \<in> fst ` set matched \<union> {nextTrackId s..<nextTrackId s + length unmatched}
                     then Some 0 else disappeared s k)"
      unfolding a b ld by auto
  qed
  have 5: "js_object cur2" using M S by (simp add: js_object_Nil)
  have 6: "set cur2 \<subseteq>
       {(fst m, updateTrack (historyLength s) now trk (ds ! nat (snd m))) | m trk.
           m \<in> set matched \<and> map_of (tracks s) (fst m) = Some trk}
       \<union> {(k, initializeTrack k now d) | k d. d \<in> set ds}"
  proof -
    define A where "A = {(fst m, updateTrack (historyLength s) now trk (ds ! nat (snd m))) | m trk.
           m \<in> set matched \<and> map_of (tracks s) (fst m) = Some trk}"
    define B where "B = {(k, initializeTrack k now d) | k d. d \<in> set ds}"
    define B' where "B' = {(k, initializeTrack k now d) | k d. d \<in> set dets}"
    have "set dets \<subseteq> set ds" using un by (auto simp: dets_def)
    then have b: "B' \<subseteq> B" unfolding B_def B'_def by blast
    have c2: "set cur2 \<subseteq> set cur1 \<union> B'"
      unfolding B'_def using S by blast
    have c1: "set cur1 \<subseteq> A"
      unfolding A_def using M by simp
    have "set cur2 \<subseteq> A \<union> B" using b c1 c2 by blast
    then show ?thesis unfolding A_def B_def .
  qed
  show thesis by (rule that [OF 1 2 3 4 5 6])
qed

lemma matching_Nil: "matchDetectionsToTracks s (calculateIoUMatrix s []) [] = (fst (matchDetectionsToTracks s (calculateIoUMatrix s []) []), [])"
  by (simp add: matchDetectionsToTracks_def Let_def)

lemma matching_no_tracks:
  "tracks s = [] \<Longrightarrow> matchDetectionsToTracks s (calculateIoUMatrix s ds) ds = ([], [0..<length ds])"
  by (simp add: matchDetectionsToTracks_def calculateIoUMatrix_def)

text \<open>One frame: what happens to the tracks, whatever the branch.\<close>

lemma updateTracks_frame:
  assumes js: "js_object (tracks s)"
  shows
    js': "js_object (tracks (snd (updateTracks now ds s)))"
  and next': "nextTrackId (snd (updateTracks now ds s))
          = nextTrackId s + length (snd (matchDetectionsToTracks s (calculateIoUMatrix s ds) ds))"
  and new': "\<forall>k < length (snd (matchDetectionsToTracks s (calculateIoUMatrix s ds) ds)).
          map_of (tracks (snd (updateTracks now ds s))) (nextTrackId s + k)
            = Some (initializeTrack (nextTrackId s + k) now
                      (ds ! (snd (matchDetectionsToTracks s (calculateIoUMatrix s ds) ds) ! k)))"
  and old': "\<forall>tid trk. map_of (tracks s) tid = Some trk
            \<and> tid \<notin> set (r_updated (fst (updateTracks now ds s))) \<longrightarrow>
          (if int (disappeared_or_zero (disappeared s) tid + 1) > maxDisappearedFrames s
           then map_of (tracks (snd (updateTracks now ds s))) tid = None
                \<and> tid \<in> set (r_disappeared (fst (updateTracks now ds s)))
           else map_of (tracks (snd (updateTracks now ds s))) tid = Some trk
                \<and> disappeared (snd (updateTracks now ds s)) tid
                    = Some (disappeared_or_zero (disappeared s) tid + 1))"
  and keys': "\<forall>tid \<in> fst ` set (tracks (snd (updateTracks now ds s))).
          tid \<in> fst ` set (tracks s)
          \<or> (nextTrackId s \<le> tid \<and> tid < nextTrackId (snd (updateTracks now ds s)))"
  and vals': "\<forall>kt \<in> set (tracks (snd (updateTracks now ds s))).
          kt \<in> set (tracks s)
          \<or> (\<exists>d. snd kt = initializeTrack (fst kt) now d)
          \<or> (\<exists>trk d. map_of (tracks s) (fst kt) = Some trk
                \<and> snd kt = updateTrack (historyLength s) now trk d)"
  and conf': "historyLength (snd (updateTracks now ds s)) = historyLength s
          \<and> maxDisappearedFrames (snd (updateTracks now ds s)) = maxDisappearedFrames s
          \<and> isModelLoaded (snd (updateTracks now ds s)) = isModelLoaded s
          \<and> confidenceThreshold (snd (updateTracks now ds s)) = confidenceThreshold s"
proof -
  have dist: "distinct (map fst (tracks s))" using js by (rule js_object_distinct)
  obtain matched unmatched where mu:
    "matchDetectionsToTracks s (calculateIoUMatrix s ds) ds = (matched, unmatched)"
    by (cases "matchDetectionsToTracks s (calculateIoUMatrix s ds) ds")
  consider (empty) "ds = []" | (first) "ds \<noteq> []" "tracks s = []"
    | (general) "ds \<noteq> []" "tracks s \<noteq> []" by blast
  then have all: "js_object (tracks (snd (updateTracks now ds s)))
     \<and> nextTrackId (snd (updateTracks now ds s)) = nextTrackId s + length unmatched
     \<and> (\<forall>k < length unmatched.
          map_of (tracks (snd (updateTracks now ds s))) (nextTrackId s + k)
            = Some (initializeTrack (nextTrackId s + k) now (ds ! (unmatched ! k))))
     \<and> (\<forall>tid trk. map_of (tracks s) tid = Some trk
            \<and> tid \<notin> set (r_updated (fst (updateTracks now ds s))) \<longrightarrow>
          (if int (disappeared_or_zero (disappeared s) tid + 1) > maxDisappearedFrames s
           then map_of (tracks (snd (updateTracks now ds s))) tid = None
                \<and> tid \<in> set (r_disappeared (fst (updateTracks now ds s)))
           else map_of (tracks (snd (updateTracks now ds s))) tid = Some trk
                \<and> disappeared (snd (updateTracks now ds s)) tid
                    = Some (disappeared_or_zero (disappeared s) tid + 1)))
     \<and> (\<forall>tid \<in> fst ` set (tracks (snd (updateTracks now ds s))).
          tid \<in> fst ` set (tracks s)
          \<or> (nextTrackId s \<le> tid \<and> tid < nextTrackId (snd (updateTracks now ds s))))
     \<and> (\<forall>kt \<in> set (tracks (snd (updateTracks now ds s))).
          kt \<in> set (tracks s)
          \<or> (\<exists>d. snd kt = initializeTrack (fst kt) now d)
          \<or> (\<exists>trk d. map_of (tracks s) (fst kt) = Some trk
                \<and> snd kt = updateTrack (historyLength s) now trk d))
     \<and> (historyLength (snd (updateTracks now ds s)) = historyLength s
          \<and> maxDisappearedFrames (snd (updateTracks now ds s)) = maxDisappearedFrames s
          \<and> isModelLoaded (snd (updateTracks now ds s)) = isModelLoaded s
          \<and> confidenceThreshold (snd (updateTracks now ds s)) = confidenceThreshold s)"
  proof cases
    case empty
    have un: "unmatched = []" using mu matching_Nil [of s] empty by simp
    note H = handleDisappearances_char [OF dist, where curA = "[]" and upd = "[]"]
    have u: "updateTracks now ds s = handleDisappearances [] [] s"
      using empty by (simp add: updateTracks_empty)
    have v: "\<forall>kt \<in> set (tracks (snd (handleDisappearances [] [] s))). kt \<in> set (tracks s)"
    proof
      fix kt assume a: "kt \<in> set (tracks (snd (handleDisappearances [] [] s)))"
      have "js_object (tracks (snd (handleDisappearances [] [] s)))"
        by (rule H(6)) (rule js_object_Nil)
      then have "distinct (map fst (tracks (snd (handleDisappearances [] [] s))))"
        by (rule js_object_distinct)
      then have "map_of (tracks (snd (handleDisappearances [] [] s))) (fst kt) = Some (snd kt)"
        using a by (simp add: map_of_is_SomeI)
      then have "map_of (tracks s) (fst kt) = Some (snd kt)"
        by (simp add: H(1) split: if_splits)
      then show "kt \<in> set (tracks s)" using map_of_SomeD by fastforce
    qed
    have k: "\<forall>tid \<in> fst ` set (tracks (snd (handleDisappearances [] [] s))). tid \<in> fst ` set (tracks s)"
      using v by force
    show ?thesis
      unfolding u un using v k
      by (auto simp: H js_object_Nil map_of_eq_None_iff)
  next
    case first
    obtain cur where c:
      "updateTracks now ds s =
       (\<lparr>r_tracks = cur, r_updated = [nextTrackId s..<nextTrackId s + length ds], r_disappeared = []\<rparr>,
        s\<lparr>tracks := cur, nextTrackId := nextTrackId s + length ds\<rparr>)"
      "\<forall>k. map_of cur k =
        (if nextTrackId s \<le> k \<and> k < nextTrackId s + length ds
         then Some (initializeTrack k now (ds ! (k - nextTrackId s))) else None)"
      "js_object cur"
      "set cur \<subseteq> {(k, initializeTrack k now d) | k d. d \<in> set ds}"
      using updateTracks_first [OF first, where now = now] by blast
    have un: "unmatched = [0..<length ds]" using mu matching_no_tracks [OF first(2), of ds] by simp
    have k: "\<forall>tid \<in> fst ` set cur. nextTrackId s \<le> tid \<and> tid < nextTrackId s + length ds"
    proof
      fix tid assume "tid \<in> fst ` set cur"
      then have "map_of cur tid \<noteq> None" by (simp add: map_of_eq_None_iff)
      then show "nextTrackId s \<le> tid \<and> tid < nextTrackId s + length ds"
        using c(2) by (auto split: if_splits)
    qed
    have v: "\<forall>kt \<in> set cur. \<exists>d. snd kt = initializeTrack (fst kt) now d"
    proof
      fix kt assume "kt \<in> set cur"
      then have "kt \<in> {(k, initializeTrack k now d) | k d. d \<in> set ds}" using c(4) by blast
      then show "\<exists>d. snd kt = initializeTrack (fst kt) now d" by auto
    qed
    show ?thesis
      unfolding c(1) un using c(2,3) k v first(2)
      by simp
  next
    case general
    obtain cur2 dis2 where c:
      "updateTracks now ds s =
       handleDisappearances cur2 (map fst matched @ [nextTrackId s..<nextTrackId s + length unmatched])
         (s\<lparr>disappeared := dis2, nextTrackId := nextTrackId s + length unmatched\<rparr>)"
      "\<forall>k. nextTrackId s \<le> k \<and> k < nextTrackId s + length unmatched
         \<longrightarrow> map_of cur2 k = Some (initializeTrack k now (ds ! (unmatched ! (k - nextTrackId s))))"
      "fst ` set cur2 = fst ` set matched \<union> {nextTrackId s..<nextTrackId s + length unmatched}"
      "\<forall>k. dis2 k = (if k \<in> fst ` set matched \<union> {nextTrackId s..<nextTrackId s + length unmatched}
                     then Some 0 else disappeared s k)"
      "js_object cur2"
      "set cur2 \<subseteq>
       {(fst m, updateTrack (historyLength s) now trk (ds ! nat (snd m))) | m trk.
           m \<in> set matched \<and> map_of (tracks s) (fst m) = Some trk}
       \<union> {(k, initializeTrack k now d) | k d. d \<in> set ds}"
      using updateTracks_general [OF general js mu, where now = now] by blast
    define s2 where "s2 = s\<lparr>disappeared := dis2, nextTrackId := nextTrackId s + length unmatched\<rparr>"
    define upd where "upd = map fst matched @ [nextTrackId s..<nextTrackId s + length unmatched]"
    have u: "updateTracks now ds s = handleDisappearances cur2 upd s2"
      by (simp add: c(1) s2_def upd_def)
    have d2: "distinct (map fst (tracks s2))" using dist by (simp add: s2_def)
    note H = handleDisappearances_char [OF d2, where curA = cur2 and upd = upd]
    have t2: "tracks s2 = tracks s" "maxDisappearedFrames s2 = maxDisappearedFrames s"
      "disappeared s2 = dis2" "nextTrackId s2 = nextTrackId s + length unmatched"
      "historyLength s2 = historyLength s" "isModelLoaded s2 = isModelLoaded s"
      "confidenceThreshold s2 = confidenceThreshold s"
      by (simp_all add: s2_def)
    have updset: "set upd = fst ` set cur2" by (simp add: upd_def c(3))
    have A: "js_object (tracks (snd (handleDisappearances cur2 upd s2)))"
      using H(6) c(5) by simp
    have B: "nextTrackId (snd (handleDisappearances cur2 upd s2)) = nextTrackId s + length unmatched"
      by (simp add: H t2)
    have C: "\<forall>k < length unmatched.
          map_of (tracks (snd (handleDisappearances cur2 upd s2))) (nextTrackId s + k)
            = Some (initializeTrack (nextTrackId s + k) now (ds ! (unmatched ! k)))"
      using c(2) by (simp add: H(1))
    have D: "\<forall>tid trk. map_of (tracks s) tid = Some trk
            \<and> tid \<notin> set (r_updated (fst (handleDisappearances cur2 upd s2))) \<longrightarrow>
          (if int (disappeared_or_zero (disappeared s) tid + 1) > maxDisappearedFrames s
           then map_of (tracks (snd (handleDisappearances cur2 upd s2))) tid = None
                \<and> tid \<in> set (r_disappeared (fst (handleDisappearances cur2 upd s2)))
           else map_of (tracks (snd (handleDisappearances cur2 upd s2))) tid = Some trk
                \<and> disappeared (snd (handleDisappearances cur2 upd s2)) tid
                    = Some (disappeared_or_zero (disappeared s) tid + 1))"
    proof (intro allI impI)
      fix tid trk
      assume a: "map_of (tracks s) tid = Some trk
            \<and> tid \<notin> set (r_updated (fst (handleDisappearances cur2 upd s2)))"
      then have nu: "tid \<notin> fst ` set cur2" by (simp add: H(4) updset)
      then have n2: "map_of cur2 tid = None" by (simp add: map_of_eq_None_iff)
      have "tid \<notin> fst ` set matched \<union> {nextTrackId s..<nextTrackId s + length unmatched}"
        using nu c(3) by simp
      then have dd: "dis2 tid = disappeared s tid" using c(4) by presburger
      then have dz: "disappeared_or_zero dis2 tid = disappeared_or_zero (disappeared s) tid"
        by (simp add: disappeared_or_zero_def)
      have ink: "tid \<in> fst ` set (tracks s)" using a by (metis map_of_eq_None_iff option.distinct(1))
      show "(if int (disappeared_or_zero (disappeared s) tid + 1) > maxDisappearedFrames s
           then map_of (tracks (snd (handleDisappearances cur2 upd s2))) tid = None
                \<and> tid \<in> set (r_disappeared (fst (handleDisappearances cur2 upd s2)))
           else map_of (tracks (snd (handleDisappearances cur2 upd s2))) tid = Some trk
                \<and> disappeared (snd (handleDisappearances cur2 upd s2)) tid
                    = Some (disappeared_or_zero (disappeared s) tid + 1))"
        using a ink by (simp add: H(1,2,3) t2 n2 dz)
    qed
    have V: "\<forall>kt \<in> set (tracks (snd (handleDisappearances cur2 upd s2))).
          kt \<in> set (tracks s)
          \<or> (\<exists>d. snd kt = initializeTrack (fst kt) now d)
          \<or> (\<exists>trk d. map_of (tracks s) (fst kt) = Some trk
                \<and> snd kt = updateTrack (historyLength s) now trk d)"
    proof
      fix kt assume a: "kt \<in> set (tracks (snd (handleDisappearances cur2 upd s2)))"
      have "distinct (map fst (tracks (snd (handleDisappearances cur2 upd s2))))"
        using A by (rule js_object_distinct)
      then have m: "map_of (tracks (snd (handleDisappearances cur2 upd s2))) (fst kt) = Some (snd kt)"
        using a by (simp add: map_of_is_SomeI)
      show "kt \<in> set (tracks s)
          \<or> (\<exists>d. snd kt = initializeTrack (fst kt) now d)
          \<or> (\<exists>trk d. map_of (tracks s) (fst kt) = Some trk
                \<and> snd kt = updateTrack (historyLength s) now trk d)"
      proof (cases "map_of cur2 (fst kt)")
        case None
        then have "map_of (tracks s) (fst kt) = Some (snd kt)"
          using m by (simp add: H(1) t2 split: if_splits)
        then have "(fst kt, snd kt) \<in> set (tracks s)" by (rule map_of_SomeD)
        then show ?thesis by simp
      next
        case (Some v)
        then have "v = snd kt" using m by (simp add: H(1))
        then have "(fst kt, snd kt) \<in> set cur2" using Some map_of_SomeD by fastforce
        then have "(fst kt, snd kt) \<in> {(fst m, updateTrack (historyLength s) now trk (ds ! nat (snd m))) | m trk.
           m \<in> set matched \<and> map_of (tracks s) (fst m) = Some trk}
          \<or> (fst kt, snd kt) \<in> {(k, initializeTrack k now d) | k d. d \<in> set ds}"
          using c(6) by blast
        then show ?thesis by auto
      qed
    qed
    have K: "\<forall>tid \<in> fst ` set (tracks (snd (handleDisappearances cur2 upd s2))).
          tid \<in> fst ` set (tracks s)
          \<or> (nextTrackId s \<le> tid \<and> tid < nextTrackId (snd (handleDisappearances cur2 upd s2)))"
    proof
      fix tid assume "tid \<in> fst ` set (tracks (snd (handleDisappearances cur2 upd s2)))"
      then have m: "map_of (tracks (snd (handleDisappearances cur2 upd s2))) tid \<noteq> None"
        by (simp add: map_of_eq_None_iff)
      have mp: "\<forall>m \<in> set matched. map_of (tracks s) (fst m) \<noteq> None"
        using matching_props(3) [OF js, of ds] mu by auto
      show "tid \<in> fst ` set (tracks s)
          \<or> (nextTrackId s \<le> tid \<and> tid < nextTrackId (snd (handleDisappearances cur2 upd s2)))"
      proof (cases "map_of cur2 tid")
        case None
        then have "tid \<in> fst ` set (tracks s)" using m by (simp add: H(1) t2 split: if_splits)
        then show ?thesis by simp
      next
        case (Some v)
        then have "tid \<in> fst ` set cur2" by (metis map_of_eq_None_iff option.distinct(1))
        then consider "tid \<in> fst ` set matched" | "nextTrackId s \<le> tid \<and> tid < nextTrackId s + length unmatched"
          using c(3) by auto
        then show ?thesis
        proof cases
          case 1
          then obtain m where "m \<in> set matched" "fst m = tid" by auto
          then have "map_of (tracks s) tid \<noteq> None" using mp by auto
          then show ?thesis by (simp add: map_of_eq_None_iff)
        next
          case 2
          then show ?thesis by (simp add: B)
        qed
      qed
    qed
    show ?thesis
      unfolding u using A B C D V K by (simp add: H t2)
  qed
  show "js_object (tracks (snd (updateTracks now ds s)))" using all by blast
  show "nextTrackId (snd (updateTracks now ds s))
          = nextTrackId s + length (snd (matchDetectionsToTracks s (calculateIoUMatrix s ds) ds))"
    using all by (simp add: mu)
  show "\<forall>k < length (snd (matchDetectionsToTracks s (calculateIoUMatrix s ds) ds)).
          map_of (tracks (snd (updateTracks now ds s))) (nextTrackId s + k)
            = Some (initializeTrack (nextTrackId s + k) now
                      (ds ! (snd (matchDetectionsToTracks s (calculateIoUMatrix s ds) ds) ! k)))"
    using all by (simp add: mu)
  show "\<forall>tid trk. map_of (tracks s) tid = Some trk
            \<and> tid \<notin> set (r_updated (fst (updateTracks now ds s))) \<longrightarrow>
          (if int (disappeared_or_zero (disappeared s) tid + 1) > maxDisappearedFrames s
           then map_of (tracks (snd (updateTracks now ds s))) tid = None
                \<and> tid \<in> set (r_disappeared (fst (updateTracks now ds s)))
           else map_of (tracks (snd (updateTracks now ds s))) tid = Some trk
                \<and> disappeared (snd (updateTracks now ds s)) tid
                    = Some (disappeared_or_zero (disappeared s) tid + 1))"
    using all by blast
  show "\<forall>tid \<in> fst ` set (tracks (snd (updateTracks now ds s))).
          tid \<in> fst ` set (tracks s)
          \<or> (nextTrackId s \<le> tid \<and> tid < nextTrackId (snd (updateTracks now ds s)))"
    using all by blast
  show "\<forall>kt \<in> set (tracks (snd (updateTracks now ds s))).
          kt \<in> set (tracks s)
          \<or> (\<exists>d. snd kt = initializeTrack (fst kt) now d)
          \<or> (\<exists>trk d. map_of (tracks s) (fst kt) = Some trk
                \<and> snd kt = updateTrack (historyLength s) now trk d)"
    using all by blast
  show "historyLength (snd (updateTracks now ds s)) = historyLength s
          \<and> maxDisappearedFrames (snd (updateTracks now ds s)) = maxDisappearedFrames s
          \<and> isModelLoaded (snd (updateTracks now ds s)) = isModelLoaded s
          \<and> confidenceThreshold (snd (updateTracks now ds s)) = confidenceThreshold s"
    using all by blast
qed









subsection \<open>The tracker scenario, evaluated\<close>

lemma tracker0_facts:
  "tracks tracker0 = []" "nextTrackId tracker0 = 1" "disappeared tracker0 = Map.empty"
  "maxDisappearedFrames tracker0 = 1" "historyLength tracker0 = 2" "isModelLoaded tracker0"
  by (simp_all add: tracker0_def new_PersonTracker_def short_options_def or_default_def)

lemma tracker1_facts:
  "tracks tracker1 = [(1, initializeTrack 1 1000 (person_at 0 0)),
                      (2, initializeTrack 2 1000 (person_at 300 0))]"
  "nextTrackId tracker1 = 3" "disappeared tracker1 = Map.empty"
  "maxDisappearedFrames tracker1 = 1" "historyLength tracker1 = 2" "isModelLoaded tracker1"
  by (simp_all add: tracker1_def updateTracks_def tracker0_facts first_step_def eval_nat_numeral)

lemma iou_near: "calculateIoU (t_bbox (initializeTrack 1 1000 (person_at 0 0))) (d_bbox (person_at 10 0)) = 2 / 3"
  by (simp add: calculateIoU_def initializeTrack_def person_at_def Let_def)

lemma matching2:
  "matchDetectionsToTracks tracker1 (calculateIoUMatrix tracker1 [person_at 10 0, person_at 600 0])
     [person_at 10 0, person_at 600 0] = ([(1, 0)], [1])"
  by (simp add: matchDetectionsToTracks_def calculateIoUMatrix_def tracker1_facts Let_def
      match_step_def best_detection_def best_step_def minIoU_def calculateIoU_def
      initializeTrack_def person_at_def upt_Cons_less eval_nat_numeral del: upt_Suc)

lemma tracker2_facts:
  "tracks tracker2 = [(1, updateTrack 2 2000 (initializeTrack 1 1000 (person_at 0 0)) (person_at 10 0)),
                      (2, initializeTrack 2 1000 (person_at 300 0)),
                      (3, initializeTrack 3 2000 (person_at 600 0))]"
  "nextTrackId tracker2 = 4"
  "disappeared tracker2 k = (if k = 1 \<or> k = 3 then Some 0 else if k = 2 then Some 1 else None)"
  "maxDisappearedFrames tracker2 = 1" "historyLength tracker2 = 2" "isModelLoaded tracker2"
  by (simp_all add: tracker2_def updateTracks_def matching2 Let_def tracker1_facts
      matched_step_def spawn_step_def handleDisappearances_def disappear_step_def
      disappeared_or_zero_def eval_nat_numeral)






section \<open>Properties of the person tracker\<close>

subsection \<open>Association of detections and tracks\<close>

text \<open>
  Claim C4. For every set of live tracks and every list of detections processed in
  one frame, the greedy association is a one-to-one partial matching: no detection
  index occurs in two matched pairs, no track id occurs in two matched pairs, every
  matched pair joins a live track and a detection of the frame whose IoU is at least
  0.3, the unmatched detections are exactly those whose index was not matched, and
  every unmatched detection spawns a new track: the \<open>k\<close>-th of them is the track of
  id \<open>nextTrackId + k\<close> after the frame.
\<close>

theorem greedy_matching_one_to_one:
  assumes "js_object (tracks s)"
  shows "distinct (map snd (fst (matchDetectionsToTracks s (calculateIoUMatrix s ds) ds)))
       \<and> distinct (map fst (fst (matchDetectionsToTracks s (calculateIoUMatrix s ds) ds)))
       \<and> (\<forall>m \<in> set (fst (matchDetectionsToTracks s (calculateIoUMatrix s ds) ds)).
             \<exists>trk. map_of (tracks s) (fst m) = Some trk \<and> 0 \<le> snd m \<and> nat (snd m) < length ds
               \<and> calculateIoU (t_bbox trk) (d_bbox (ds ! nat (snd m))) \<ge> 0.3)
       \<and> snd (matchDetectionsToTracks s (calculateIoUMatrix s ds) ds)
           = filter (\<lambda>i. int i \<notin> snd ` set (fst (matchDetectionsToTracks s (calculateIoUMatrix s ds) ds)))
               [0..<length ds]
       \<and> (\<forall>k < length (snd (matchDetectionsToTracks s (calculateIoUMatrix s ds) ds)).
             map_of (tracks (snd (updateTracks now ds s))) (nextTrackId s + k)
               = Some (initializeTrack (nextTrackId s + k) now
                         (ds ! (snd (matchDetectionsToTracks s (calculateIoUMatrix s ds) ds) ! k))))"
proof -
  note M = matching_props [OF assms, of ds, unfolded minIoU_def]
  show ?thesis
    using M(1) M(2) M(3) M(4) updateTracks_frame(3) [OF assms, of ds now]
    by (intro conjI)
qed

theorem greedy_matching_one_to_one_witness:
  "js_object (tracks tracker1)
   \<and> matchDetectionsToTracks tracker1
         (calculateIoUMatrix tracker1 [person_at 10 0, person_at 600 0])
         [person_at 10 0, person_at 600 0] = ([(1, 0)], [1])
   \<and> calculateIoU (t_bbox (initializeTrack 1 1000 (person_at 0 0))) (d_bbox (person_at 10 0)) \<ge> 0.3
   \<and> map_of (tracks (snd (updateTracks 2000 [person_at 10 0, person_at 600 0] tracker1))) 3
       = Some (initializeTrack 3 2000 (person_at 600 0))"
proof -
  have js: "js_object (tracks tracker1)"
    by (simp add: tracker1_facts js_object_def)
  note T = greedy_matching_one_to_one [OF js, of "[person_at 10 0, person_at 600 0]" 2000,
      unfolded matching2]
  have a: "calculateIoU (t_bbox (initializeTrack 1 1000 (person_at 0 0))) (d_bbox (person_at 10 0)) \<ge> 0.3"
    using T by (simp add: tracker1_facts)
  have b: "map_of (tracks (snd (updateTracks 2000 [person_at 10 0, person_at 600 0] tracker1))) 3
       = Some (initializeTrack 3 2000 (person_at 600 0))"
    using T by (simp add: tracker1_facts)
  show ?thesis using js a b by (simp add: matching2)
qed

subsection \<open>Disappearance and track ids\<close>



subsection \<open>Bounded history\<close>




subsection \<open>Detector failure\<close>

text \<open>
  Claim C9. If the detector call throws for a frame, the frame is processed exactly
  as a frame whose detector returned no detections: frame processing returns a result
  (the error is not propagated), no track is created or updated, every live track
  either stays as it was with its disappeared counter advanced by exactly one, or,
  when that count exceeds \<^verbatim>\<open>maxDisappearedFrames\<close>, is removed.
\<close>

theorem detector_failure_is_empty_frame:
  assumes "isModelLoaded s" "js_object (tracks s)"
  shows "processFrame now (Detector (Inl e)) s = processFrame now (Detector (Inr [])) s
       \<and> (\<exists>r s'. processFrame now (Detector (Inl e)) s = Inr (r, s')
            \<and> f_detections r = [] \<and> f_updated r = []
            \<and> nextTrackId s' = nextTrackId s
            \<and> (\<forall>tid. map_of (tracks s) tid = None \<longrightarrow> map_of (tracks s') tid = None)
            \<and> (\<forall>tid trk. map_of (tracks s) tid = Some trk \<longrightarrow>
                 (if int (disappeared_or_zero (disappeared s) tid + 1) > maxDisappearedFrames s
                  then map_of (tracks s') tid = None \<and> tid \<in> set (f_disappeared r)
                  else map_of (tracks s') tid = Some trk
                       \<and> disappeared s' tid = Some (disappeared_or_zero (disappeared s) tid + 1))))"
proof -
  have dist: "distinct (map fst (tracks s))" using assms(2) by (rule js_object_distinct)
  note H = handleDisappearances_char [OF dist, where curA = "[]" and upd = "[]"]
  obtain r s' where rs: "handleDisappearances [] [] s = (r, s')"
    by (cases "handleDisappearances [] [] s")
  have p: "processFrame now (Detector (Inl e)) s
      = Inr (\<lparr>f_detections = [], f_tracks = r_tracks r, f_updated = r_updated r,
               f_disappeared = r_disappeared r\<rparr>, s')"
    using assms(1) by (simp add: processFrame_def detectPeople_def updateTracks_empty rs)
  have q: "processFrame now (Detector (Inr [])) s = processFrame now (Detector (Inl e)) s"
    using assms(1) by (simp add: processFrame_def detectPeople_def)
  have s': "s' = snd (handleDisappearances [] [] s)" and r: "r = fst (handleDisappearances [] [] s)"
    by (simp_all add: rs)
  have 1: "nextTrackId s' = nextTrackId s" unfolding s' by (rule H(7))
  have 2: "\<forall>tid. map_of (tracks s) tid = None \<longrightarrow> map_of (tracks s') tid = None"
    unfolding s' by (simp add: H(1))
  have 3: "\<forall>tid trk. map_of (tracks s) tid = Some trk \<longrightarrow>
                 (if int (disappeared_or_zero (disappeared s) tid + 1) > maxDisappearedFrames s
                  then map_of (tracks s') tid = None \<and> tid \<in> set (r_disappeared r)
                  else map_of (tracks s') tid = Some trk
                       \<and> disappeared s' tid = Some (disappeared_or_zero (disappeared s) tid + 1))"
  proof (intro allI impI)
    fix tid trk assume a: "map_of (tracks s) tid = Some trk"
    then have "tid \<in> fst ` set (tracks s)" by (metis map_of_eq_None_iff option.distinct(1))
    then show "(if int (disappeared_or_zero (disappeared s) tid + 1) > maxDisappearedFrames s
                  then map_of (tracks s') tid = None \<and> tid \<in> set (r_disappeared r)
                  else map_of (tracks s') tid = Some trk
                       \<and> disappeared s' tid = Some (disappeared_or_zero (disappeared s) tid + 1))"
      unfolding s' r using a by (simp add: H(1,2,3))
  qed
  have 4: "r_updated r = []" unfolding r by (rule H(4))
  show ?thesis
    unfolding q [symmetric] using 1 2 3 4 by (simp add: p q)
qed

theorem detector_failure_is_empty_frame_witness:
  "isModelLoaded tracker2 \<and> js_object (tracks tracker2)
   \<and> processFrame 3000 (Detector (Inl DetectorError)) tracker2
       = processFrame 3000 (Detector (Inr [])) tracker2
   \<and> (\<exists>r s'. processFrame 3000 (Detector (Inl DetectorError)) tracker2 = Inr (r, s')
         \<and> f_detections r = []
         \<and> map_of (tracks s') 1 = map_of (tracks tracker2) 1
         \<and> disappeared s' 1 = Some 1
         \<and> map_of (tracks s') 2 = None \<and> 2 \<in> set (f_disappeared r))"
proof -
  have js2: "js_object (tracks tracker2)"
    by (simp add: tracker2_facts js_object_def)
  have ld: "isModelLoaded tracker2" by (simp add: tracker2_facts)
  note A = detector_failure_is_empty_frame [OF ld js2, of 3000 DetectorError]
  then obtain r s' where rs: "processFrame 3000 (Detector (Inl DetectorError)) tracker2 = Inr (r, s')"
    "f_detections r = []"
    "\<forall>tid trk. map_of (tracks tracker2) tid = Some trk \<longrightarrow>
                 (if int (disappeared_or_zero (disappeared tracker2) tid + 1) > maxDisappearedFrames tracker2
                  then map_of (tracks s') tid = None \<and> tid \<in> set (f_disappeared r)
                  else map_of (tracks s') tid = Some trk
                       \<and> disappeared s' tid = Some (disappeared_or_zero (disappeared tracker2) tid + 1))"
    by blast
  have a: "map_of (tracks s') 1 = map_of (tracks tracker2) 1 \<and> disappeared s' 1 = Some 1"
    using rs(3) [rule_format, of 1] by (simp add: tracker2_facts disappeared_or_zero_def)
  have b: "map_of (tracks s') 2 = None \<and> 2 \<in> set (f_disappeared r)"
    using rs(3) [rule_format, of 2] by (simp add: tracker2_facts disappeared_or_zero_def)
  have ex: "\<exists>r s'. processFrame 3000 (Detector (Inl DetectorError)) tracker2 = Inr (r, s')
         \<and> f_detections r = []
         \<and> map_of (tracks s') 1 = map_of (tracks tracker2) 1
         \<and> disappeared s' 1 = Some 1
         \<and> map_of (tracks s') 2 = None \<and> 2 \<in> set (f_disappeared r)"
    using rs(1,2) a b by blast
  show ?thesis
    using ld js2 A [THEN conjunct1] ex by blast
qed

end
